theory Spec2Isabelle
  imports Complex_Main "HOL-Library.AList" "HOL-Library.Log_Nat"
begin

section \<open>Errors\<close>

text \<open>
  The exceptions the modelled code raises, as values. \<open>FrameRangeError\<close> and
  \<open>FrameRangesError\<close> are the classes of \<^verbatim>\<open>eta/core/frames.py\<close>,
  \<open>ObjectSchemaError\<close> is the class of \<^verbatim>\<open>eta/core/objects.py\<close>,
  \<open>AttributeSchemaError\<close> stands for the errors of the attribute schemas, and
  \<open>ValueError\<close>, \<open>TypeError\<close>, \<open>IndexError\<close>, \<open>KeyError\<close>,
  \<open>AttributeError\<close>, \<open>ZeroDivisionError\<close> and \<open>OverflowError\<close> are Python's
  own.
\<close>

datatype error =
    FrameRangeError
  | FrameRangesError
  | ValueError
  | TypeError
  | IndexError
  | KeyError
  | AttributeError
  | ZeroDivisionError
  | OverflowError
  | ObjectSchemaError
  | AttributeSchemaError

section \<open>Strings and numbers of Python\<close>

text \<open>
  \<^verbatim>\<open>"%d" % n\<close>: the decimal digits of \<open>n\<close>, with a minus sign for a negative
  number.
\<close>

definition digit_char :: "nat \<Rightarrow> char" where
  "digit_char d = char_of (48 + d)"

definition is_digit :: "char \<Rightarrow> bool" where
  "is_digit c = (48 \<le> (of_char c :: nat) \<and> (of_char c :: nat) \<le> 57)"

definition digit_val :: "char \<Rightarrow> nat" where
  "digit_val c = of_char c - 48"

function nat_to_str :: "nat \<Rightarrow> string" where
  "nat_to_str n =
     (if n < 10 then [digit_char n] else nat_to_str (n div 10) @ [digit_char (n mod 10)])"
  by pat_completeness auto
termination
  by (relation "measure id") auto

declare nat_to_str.simps [simp del]

definition fmt_d :: "int \<Rightarrow> string" where
  "fmt_d i = (if i < 0 then CHR ''-'' # nat_to_str (nat (- i)) else nat_to_str (nat i))"

text \<open>
  \<^verbatim>\<open>int(s)\<close> on a string: blanks around the number are dropped, then an optional
  sign and one or more decimal digits are read; anything else raises
  \<open>ValueError\<close>. (Underscores between digits, which newer Pythons also accept, are
  rejected here.)
\<close>

definition is_space :: "char \<Rightarrow> bool" where
  "is_space c = (c \<in> set [CHR '' '', CHR 0x09, CHR 0x0A, CHR 0x0B, CHR 0x0C, CHR 0x0D])"

definition py_strip :: "string \<Rightarrow> string" where
  "py_strip s = rev (dropWhile is_space (rev (dropWhile is_space s)))"

definition digits_to_nat :: "string \<Rightarrow> nat" where
  "digits_to_nat s = foldl (\<lambda>acc c. 10 * acc + digit_val c) 0 s"

definition py_int :: "string \<Rightarrow> error + int" where
  "py_int s =
     (case py_strip s of
        [] \<Rightarrow> Inl ValueError
      | c # cs \<Rightarrow>
          if c = CHR ''-'' \<or> c = CHR ''+'' then
            (if cs \<noteq> [] \<and> list_all is_digit cs
             then Inr ((if c = CHR ''-'' then - 1 else 1) * int (digits_to_nat cs))
             else Inl ValueError)
          else if list_all is_digit (c # cs) then Inr (int (digits_to_nat (c # cs)))
          else Inl ValueError)"

text \<open>\<^verbatim>\<open>s.split(sep)\<close> for a separator of one character.\<close>

fun split_chr :: "char \<Rightarrow> string \<Rightarrow> string list" where
  "split_chr sep [] = [[]]"
| "split_chr sep (c # cs) =
     (if c = sep then [] # split_chr sep cs
      else (case split_chr sep cs of
              [] \<Rightarrow> [[c]]
            | w # ws \<Rightarrow> (c # w) # ws))"

text \<open>\<^verbatim>\<open>list(map(f, xs))\<close> for an \<open>f\<close> that may raise: the first exception wins.\<close>

fun map_result :: "('a \<Rightarrow> error + 'b) \<Rightarrow> 'a list \<Rightarrow> error + 'b list" where
  "map_result f [] = Inr []"
| "map_result f (x # xs) =
     (case f x of
        Inl e \<Rightarrow> Inl e
      | Inr y \<Rightarrow> (case map_result f xs of Inl e \<Rightarrow> Inl e | Inr ys \<Rightarrow> Inr (y # ys)))"

text \<open>
  \<^verbatim>\<open>round(x)\<close> of Python 3 (and of \<^verbatim>\<open>builtins\<close>, which the module imports, on
  Python 2), on the exact value of a finite float: the nearest integer, a tie going to
  the even neighbour.
\<close>

definition py_round :: "rat \<Rightarrow> int" where
  "py_round x =
     (let f = \<lfloor>x\<rfloor>; d = x - of_int f in
      if d < 1 / 2 then f
      else if 1 / 2 < d then f + 1
      else if even f then f
      else f + 1)"

section \<open>Floats\<close>

text \<open>
  A Python float is an IEEE 754 double: a finite one is given by its exact rational
  value, and there are the two infinities and NaN. (The sign of a zero is not kept:
  nothing below can tell the two zeros apart.)
\<close>

datatype pyfloat = Fin rat | PInf | NInf | NaN

text \<open>
  \<open>ilog2 x\<close> is the integer \<open>e\<close> with \<open>2\<^sup>e \<le> \<bar>x\<bar> < 2\<^sup>e\<^sup>+\<^sup>1\<close>, for
  \<open>x \<noteq> 0\<close>: the bit lengths of numerator and denominator give it up to one.
\<close>

definition ilog2 :: "rat \<Rightarrow> int" where
  "ilog2 x =
     (case quotient_of x of
        (p, q) \<Rightarrow>
          (let e = bitlen \<bar>p\<bar> - bitlen q in
           if 2 powi e \<le> \<bar>x\<bar> then e else e - 1))"

text \<open>
  The rounding every float operation ends with: the exact result goes to the
  nearest double, a tie to the one with an even significand. A double has 53
  significant bits, so its last bit is worth \<open>2\<^sup>e\<^sup>-\<^sup>5\<^sup>2\<close>; below
  \<open>2\<^sup>-\<^sup>1\<^sup>0\<^sup>2\<^sup>2\<close> (subnormal numbers) the last bit stays at
  \<open>2\<^sup>-\<^sup>1\<^sup>0\<^sup>7\<^sup>4\<close>, and a result that rounds to \<open>2\<^sup>1\<^sup>0\<^sup>2\<^sup>4\<close> or beyond is
  an infinity.
\<close>

definition round_double :: "rat \<Rightarrow> pyfloat" where
  "round_double x =
     (if x = 0 then Fin 0
      else
        (let e = max (ilog2 x) (- 1022);
             ulp = 2 powi (e - 52);
             y = of_int (py_round (x / ulp)) * ulp
         in if 2 powi 1024 \<le> \<bar>y\<bar> then (if 0 < x then PInf else NInf) else Fin y))"

text \<open>
  \<^verbatim>\<open>a / b\<close> on floats: a zero divisor raises \<open>ZeroDivisionError\<close> whatever
  the dividend is.
\<close>

definition fdiv :: "pyfloat \<Rightarrow> pyfloat \<Rightarrow> error + pyfloat" where
  "fdiv a b =
     (case b of
        Fin y \<Rightarrow>
          if y = 0 then Inl ZeroDivisionError
          else
            (case a of
               Fin x \<Rightarrow> Inr (round_double (x / y))
             | PInf \<Rightarrow> Inr (if 0 < y then PInf else NInf)
             | NInf \<Rightarrow> Inr (if 0 < y then NInf else PInf)
             | NaN \<Rightarrow> Inr NaN)
      | NaN \<Rightarrow> Inr NaN
      | _ \<Rightarrow> (case a of Fin x \<Rightarrow> Inr (Fin 0) | _ \<Rightarrow> Inr NaN))"

text \<open>\<^verbatim>\<open>a * b\<close> and \<^verbatim>\<open>a + b\<close> on floats.\<close>

definition fsign :: "pyfloat \<Rightarrow> int" where
  "fsign a = (case a of Fin x \<Rightarrow> sgn \<lfloor>sgn x\<rfloor> | PInf \<Rightarrow> 1 | NInf \<Rightarrow> - 1 | NaN \<Rightarrow> 0)"

definition fmul :: "pyfloat \<Rightarrow> pyfloat \<Rightarrow> pyfloat" where
  "fmul a b =
     (case (a, b) of
        (Fin x, Fin y) \<Rightarrow> round_double (x * y)
      | (NaN, _) \<Rightarrow> NaN
      | (_, NaN) \<Rightarrow> NaN
      | _ \<Rightarrow>
          (if fsign a * fsign b = 0 then NaN
           else if 0 < fsign a * fsign b then PInf
           else NInf))"

definition fadd :: "pyfloat \<Rightarrow> pyfloat \<Rightarrow> pyfloat" where
  "fadd a b =
     (case (a, b) of
        (Fin x, Fin y) \<Rightarrow> round_double (x + y)
      | (NaN, _) \<Rightarrow> NaN
      | (_, NaN) \<Rightarrow> NaN
      | (PInf, NInf) \<Rightarrow> NaN
      | (NInf, PInf) \<Rightarrow> NaN
      | (Fin x, _) \<Rightarrow> b
      | _ \<Rightarrow> a)"

text \<open>
  An int that meets a float in an operation is converted first: it is rounded to
  the nearest double, and one too large for a double raises \<open>OverflowError\<close>.
\<close>

definition float_of_int :: "int \<Rightarrow> error + pyfloat" where
  "float_of_int k =
     (case round_double (of_int k) of
        Fin v \<Rightarrow> Inr (Fin v)
      | _ \<Rightarrow> Inl OverflowError)"

text \<open>
  \<^verbatim>\<open>round(x)\<close> on a float: an infinity raises \<open>OverflowError\<close>, NaN raises
  \<open>ValueError\<close>.
\<close>

definition round_float :: "pyfloat \<Rightarrow> error + int" where
  "round_float a =
     (case a of
        Fin x \<Rightarrow> Inr (py_round x)
      | NaN \<Rightarrow> Inl ValueError
      | _ \<Rightarrow> Inl OverflowError)"

section \<open>FrameRange\<close>

text \<open>
  \<^verbatim>\<open>class FrameRange\<close>: the fields \<^verbatim>\<open>first\<close>, \<^verbatim>\<open>last\<close> and the cursor
  \<^verbatim>\<open>_frame\<close>.
\<close>

record FrameRange =
  fr_first :: int
  fr_last :: int
  fr_frame :: int

text \<open>\<^verbatim>\<open>FrameRange._validate_range\<close>: both checks raise \<open>FrameRangeError\<close>.\<close>

definition validate_range :: "int \<Rightarrow> int \<Rightarrow> error + unit" where
  "validate_range f l =
     (if f < 1 then Inl FrameRangeError
      else if l < f then Inl FrameRangeError
      else Inr ())"

text \<open>\<^verbatim>\<open>FrameRange.__init__\<close>: sets the fields, then validates.\<close>

definition FrameRange_init :: "int \<Rightarrow> int \<Rightarrow> error + FrameRange" where
  "FrameRange_init f l =
     (case validate_range f l of
        Inl e \<Rightarrow> Inl e
      | Inr _ \<Rightarrow> Inr \<lparr>fr_first = f, fr_last = l, fr_frame = - 1\<rparr>)"

definition fr_limits :: "FrameRange \<Rightarrow> int \<times> int" where
  "fr_limits r = (fr_first r, fr_last r)"

definition fr_reset :: "FrameRange \<Rightarrow> FrameRange" where
  "fr_reset r = r\<lparr>fr_frame := - 1\<rparr>"

definition fr_to_list :: "FrameRange \<Rightarrow> int list" where
  "fr_to_list r = [fr_first r .. fr_last r]"

text \<open>\<^verbatim>\<open>FrameRange.to_human_str\<close>.\<close>

definition fr_to_human_str :: "FrameRange \<Rightarrow> string" where
  "fr_to_human_str r =
     (if fr_first r = fr_last r then fmt_d (fr_first r)
      else fmt_d (fr_first r) @ ''-'' @ fmt_d (fr_last r))"

text \<open>
  \<^verbatim>\<open>FrameRange.from_human_str\<close>: a \<open>ValueError\<close> of \<^verbatim>\<open>int\<close> becomes a
  \<open>FrameRangeError\<close>; the constructor is called on \<^verbatim>\<open>v[0]\<close> and \<^verbatim>\<open>v[-1]\<close>
  (\<^verbatim>\<open>split\<close> never returns an empty list).
\<close>

definition fr_from_human_str :: "string \<Rightarrow> error + FrameRange" where
  "fr_from_human_str frames_str =
     (case map_result py_int (split_chr CHR ''-'' frames_str) of
        Inl e \<Rightarrow> Inl FrameRangeError
      | Inr v \<Rightarrow>
          (case v of
             [] \<Rightarrow> Inl IndexError
           | x # xs \<Rightarrow> FrameRange_init x (last (x # xs))))"

section \<open>FrameRanges\<close>

text \<open>
  \<^verbatim>\<open>class FrameRanges\<close>: the list \<^verbatim>\<open>_ranges\<close> and the traversal cursor
  \<^verbatim>\<open>_idx\<close>, \<^verbatim>\<open>_started\<close>.
\<close>

record FrameRanges =
  ranges :: "FrameRange list"
  idx :: nat
  started :: bool

definition FrameRanges_empty :: FrameRanges where
  "FrameRanges_empty = \<lparr>ranges = [], idx = 0, started = False\<rparr>"

text \<open>\<^verbatim>\<open>FrameRanges.limits\<close>: \<open>(None, None)\<close> for the empty instance.\<close>

definition limits :: "FrameRanges \<Rightarrow> int option \<times> int option" where
  "limits s =
     (if ranges s = [] then (None, None)
      else (Some (fst (fr_limits (hd (ranges s)))),
            Some (snd (fr_limits (last (ranges s))))))"

definition num_ranges :: "FrameRanges \<Rightarrow> nat" where
  "num_ranges s = length (ranges s)"

text \<open>
  \<^verbatim>\<open>FrameRanges._ingest_range\<close>: the comparison with the current end comes first, the
  constructor of \<^verbatim>\<open>FrameRange\<close> (which validates) second.
\<close>

definition ingest_range :: "FrameRanges \<Rightarrow> int \<times> int \<Rightarrow> error + FrameRanges" where
  "ingest_range s new_range =
     (let f = fst new_range; l = snd new_range in
      case snd (limits s) of
        Some e \<Rightarrow>
          (if f \<le> e then Inl FrameRangesError
           else (case FrameRange_init f l of
                   Inl err \<Rightarrow> Inl err
                 | Inr r \<Rightarrow> Inr (s\<lparr>ranges := ranges s @ [r]\<rparr>)))
      | None \<Rightarrow>
          (case FrameRange_init f l of
             Inl err \<Rightarrow> Inl err
           | Inr r \<Rightarrow> Inr (s\<lparr>ranges := ranges s @ [r]\<rparr>)))"

definition add_range :: "FrameRanges \<Rightarrow> int \<times> int \<Rightarrow> error + FrameRanges" where
  "add_range s new_range = ingest_range s new_range"

text \<open>
  The loop \<^verbatim>\<open>for new_range in ranges: self._ingest_range(new_range)\<close> of
  \<^verbatim>\<open>__init__\<close> and of \<^verbatim>\<open>simplify\<close>: it stops at the first exception.
\<close>

fun ingest_all :: "FrameRanges \<Rightarrow> (int \<times> int) list \<Rightarrow> error + FrameRanges" where
  "ingest_all s [] = Inr s"
| "ingest_all s (p # ps) =
     (case ingest_range s p of Inl e \<Rightarrow> Inl e | Inr s' \<Rightarrow> ingest_all s' ps)"

text \<open>\<^verbatim>\<open>FrameRanges.__init__\<close> on an iterable of \<open>(first, last)\<close> tuples.\<close>

definition FrameRanges_init :: "(int \<times> int) list \<Rightarrow> error + FrameRanges" where
  "FrameRanges_init rs = ingest_all FrameRanges_empty rs"

text \<open>\<^verbatim>\<open>FrameRanges.reset\<close>: only the ranges up to the cursor are rewound.\<close>

definition reset :: "FrameRanges \<Rightarrow> FrameRanges" where
  "reset s =
     s\<lparr>ranges := map fr_reset (take (idx s + 1) (ranges s)) @ drop (idx s + 1) (ranges s),
       started := False, idx := 0\<rparr>"

definition clear :: "FrameRanges \<Rightarrow> FrameRanges" where
  "clear s = reset (s\<lparr>ranges := []\<rparr>)"

definition to_range_tuples :: "FrameRanges \<Rightarrow> (int \<times> int) list" where
  "to_range_tuples s = map fr_limits (ranges s)"

definition to_list :: "FrameRanges \<Rightarrow> int list" where
  "to_list s = concat (map fr_to_list (ranges s))"

text \<open>
  The merge loop of \<^verbatim>\<open>FrameRanges.simplify\<close>. \<open>acc\<close> holds the entries of
  \<^verbatim>\<open>new_ranges\<close> before the running one, \<open>cur\<close> is \<^verbatim>\<open>last_range\<close> (the
  last entry of \<^verbatim>\<open>new_ranges\<close>, updated in place), \<open>did\<close> is
  \<^verbatim>\<open>did_something\<close>.
\<close>

fun simplify_loop ::
  "(int \<times> int) list \<Rightarrow> int \<times> int \<Rightarrow> bool \<Rightarrow> FrameRange list \<Rightarrow> (int \<times> int) list \<times> bool" where
  "simplify_loop acc cur did [] = (acc @ [cur], did)"
| "simplify_loop acc cur did (old_range # rest) =
     (let ofirst = fst (fr_limits old_range); olast = snd (fr_limits old_range) in
      if ofirst \<le> snd cur + 1
      then simplify_loop acc (fst cur, olast) True rest
      else simplify_loop (acc @ [cur]) (ofirst, olast) did rest)"

definition simplify :: "FrameRanges \<Rightarrow> error + FrameRanges" where
  "simplify s =
     (if ranges s = [] then Inr s
      else
        (case simplify_loop [] (fr_limits (hd (ranges s))) False (tl (ranges s)) of
           (new_ranges, did_something) \<Rightarrow>
             if \<not> did_something then Inr (reset s)
             else ingest_all (clear s) new_ranges))"

text \<open>
  \<^verbatim>\<open>_iterable_to_ranges\<close>: the values are sorted, then one scan groups them into
  runs of consecutive numbers. \<open>ranges_loop first last vals\<close> is the loop with its
  two variables; the tuples are listed in the order the generator yields them.
\<close>

fun ranges_loop :: "int \<Rightarrow> int \<Rightarrow> int list \<Rightarrow> (int \<times> int) list" where
  "ranges_loop f l [] = [(f, l)]"
| "ranges_loop f l (v # vs) =
     (if v = l + 1 then ranges_loop f (l + 1) vs
      else (f, l) # ranges_loop v v vs)"

definition iterable_to_ranges :: "int list \<Rightarrow> (int \<times> int) list" where
  "iterable_to_ranges vals =
     (case sort vals of
        [] \<Rightarrow> []
      | v # vs \<Rightarrow> ranges_loop v v vs)"

text \<open>\<^verbatim>\<open>FrameRanges.from_iterable\<close>.\<close>

definition from_iterable :: "int list \<Rightarrow> error + FrameRanges" where
  "from_iterable frames = FrameRanges_init (iterable_to_ranges frames)"

text \<open>
  \<^verbatim>\<open>bools[inds] = True\<close> on a numpy array: an index \<open>j\<close> with \<open>0 \<le> j < n\<close> is
  that position, one with \<open>-n \<le> j < 0\<close> counts from the end, any other raises
  \<open>IndexError\<close>.
\<close>

fun set_true :: "bool list \<Rightarrow> int list \<Rightarrow> error + bool list" where
  "set_true bools [] = Inr bools"
| "set_true bools (j # js) =
     (let n = int (length bools) in
      if 0 \<le> j \<and> j < n then set_true (bools[nat j := True]) js
      else if - n \<le> j \<and> j < 0 then set_true (bools[nat (n + j) := True]) js
      else Inl IndexError)"

text \<open>
  \<^verbatim>\<open>FrameRanges.to_bools\<close>. With no \<^verbatim>\<open>total_frame_count\<close> the last frame of the
  set is taken; \<^verbatim>\<open>np.zeros\<close> refuses a negative length with \<open>ValueError\<close>. The
  empty set with no count hands \<^verbatim>\<open>None\<close> to numpy: that case is an error here.
\<close>

definition to_bools :: "FrameRanges \<Rightarrow> int option \<Rightarrow> error + bool list" where
  "to_bools s total_frame_count =
     (case (case total_frame_count of None \<Rightarrow> snd (limits s) | Some n \<Rightarrow> Some n) of
        None \<Rightarrow> Inl TypeError
      | Some n \<Rightarrow>
          if n < 0 then Inl ValueError
          else set_true (replicate (nat n) False)
                 (map (\<lambda>i. i - 1) (filter (\<lambda>i. i \<le> n) (to_list s))))"

text \<open>
  \<^verbatim>\<open>FrameRanges.from_bools\<close>: \<^verbatim>\<open>np.flatnonzero\<close> lists the positions of the true
  entries in increasing order.
\<close>

definition flatnonzero :: "bool list \<Rightarrow> int list" where
  "flatnonzero bools = map int (filter (\<lambda>i. bools ! i) [0 ..< length bools])"

definition from_bools :: "bool list \<Rightarrow> error + FrameRanges" where
  "from_bools bools = from_iterable (map (\<lambda>i. 1 + i) (flatnonzero bools))"

section \<open>Timestamps\<close>

text \<open>
  A timestamp is a number of seconds or a string \<^verbatim>\<open>"HH:MM:SS.XXX"\<close>; a number
  given as an int is taken as the float of that value.
  \<^verbatim>\<open>timestamp_str_to_seconds\<close> reads the fields of the string with Python's
  \<^verbatim>\<open>float\<close>, which is the parameter \<open>py_float\<close> here; \<^verbatim>\<open>sum\<close> starts from
  \<open>0\<close> and adds the products one after the other, each addition rounded.
\<close>

datatype timestamp = Seconds pyfloat | Clock string

fun sum_products ::
  "(string \<Rightarrow> error + pyfloat) \<Rightarrow> pyfloat \<Rightarrow> (string \<times> int) list \<Rightarrow> error + pyfloat" where
  "sum_products py_float acc [] = Inr acc"
| "sum_products py_float acc ((n, m) # rest) =
     (case py_float n of
        Inl e \<Rightarrow> Inl e
      | Inr x \<Rightarrow>
          (case float_of_int m of
             Inl e \<Rightarrow> Inl e
           | Inr fm \<Rightarrow> sum_products py_float (fadd acc (fmul x fm)) rest))"

definition timestamp_str_to_seconds ::
  "(string \<Rightarrow> error + pyfloat) \<Rightarrow> string \<Rightarrow> error + pyfloat" where
  "timestamp_str_to_seconds py_float ts =
     sum_products py_float (Fin 0) (zip (rev (split_chr CHR '':'' ts)) [1, 60, 3600])"

text \<open>
  \<^verbatim>\<open>timestamp_to_frame_number\<close>: a float division, a float multiplication by
  the int \<^verbatim>\<open>total_frame_count - 1\<close>, then \<^verbatim>\<open>round\<close>.
\<close>

definition timestamp_to_frame_number ::
  "(string \<Rightarrow> error + pyfloat) \<Rightarrow> timestamp \<Rightarrow> pyfloat \<Rightarrow> int \<Rightarrow> error + int" where
  "timestamp_to_frame_number py_float ts duration total_frame_count =
     (case (case ts of Clock s \<Rightarrow> timestamp_str_to_seconds py_float s | Seconds t \<Rightarrow> Inr t) of
        Inl e \<Rightarrow> Inl e
      | Inr t \<Rightarrow>
          (case fdiv t duration of
             Inl e \<Rightarrow> Inl e
           | Inr alpha \<Rightarrow>
               (case float_of_int (total_frame_count - 1) of
                  Inl e \<Rightarrow> Inl e
                | Inr c \<Rightarrow>
                    (case round_float (fmul alpha c) of
                       Inl e \<Rightarrow> Inl e
                     | Inr k \<Rightarrow> Inr (1 + k)))))"

section \<open>Predicates used in the statements\<close>

text \<open>
  The invariant of an interval set, on its \<open>(first, last)\<close> tuples: every interval
  has \<open>1 \<le> first \<le> last\<close> and each one starts after the one before it ends.
\<close>

fun disjoint_increasing :: "(int \<times> int) list \<Rightarrow> bool" where
  "disjoint_increasing [] = True"
| "disjoint_increasing [p] = (1 \<le> fst p \<and> fst p \<le> snd p)"
| "disjoint_increasing (p # q # ps) =
     (1 \<le> fst p \<and> fst p \<le> snd p \<and> snd p < fst q \<and> disjoint_increasing (q # ps))"

definition valid :: "FrameRanges \<Rightarrow> bool" where
  "valid s = disjoint_increasing (to_range_tuples s)"

text \<open>The number of adjacent pairs with \<open>next.first \<le> prev.last + 1\<close>.\<close>

fun mergeable_pairs :: "(int \<times> int) list \<Rightarrow> nat" where
  "mergeable_pairs [] = 0"
| "mergeable_pairs [p] = 0"
| "mergeable_pairs (p # q # ps) =
     (if fst q \<le> snd p + 1 then 1 else 0) + mergeable_pairs (q # ps)"

text \<open>Auxiliary functions of the proofs.\<close>

fun merge_from :: "int \<times> int \<Rightarrow> (int \<times> int) list \<Rightarrow> (int \<times> int) list" where
  "merge_from cur [] = [cur]"
| "merge_from cur (q # ps) =
     (if fst q \<le> snd cur + 1 then merge_from (fst cur, snd q) ps
      else cur # merge_from q ps)"

definition frames_of :: "(int \<times> int) list \<Rightarrow> int list" where
  "frames_of ps = concat (map (\<lambda>p. [fst p .. snd p]) ps)"

definition fresh_range :: "int \<times> int \<Rightarrow> FrameRange" where
  "fresh_range p = \<lparr>fr_first = fst p, fr_last = snd p, fr_frame = - 1\<rparr>"

section \<open>Attributes and attribute schemas\<close>

text \<open>
  Modelled from the spec: \<^verbatim>\<open>Attribute\<close> and \<^verbatim>\<open>AttributeContainer\<close> of
  \<^verbatim>\<open>eta.core.data\<close>, which is not among the sources. An attribute has a name, a
  type tag, a value and an optional confidence; a container of attributes keeps
  insertion order and allows duplicates by name.
\<close>

record Attribute =
  attr_name :: string
  attr_type :: string
  attr_value :: string
  attr_confidence :: "rat option"

type_synonym AttributeContainer = "Attribute list"

section \<open>DetectedObject and Object\<close>

datatype EvaluationType = RECALL | PRECISION

text \<open>
  \<^verbatim>\<open>class DetectedObject\<close>, with the fields its constructor sets (\<^verbatim>\<open>type\<close>, the
  class name, is the same for every instance and is left out). There is no field
  \<^verbatim>\<open>frames\<close> and none \<^verbatim>\<open>child_objects\<close>.
\<close>

record DetectedObject =
  do_label :: "string option"
  do_bounding_box :: "(rat \<times> rat \<times> rat \<times> rat) option"
  do_mask :: "bool list list option"
  do_confidence :: "rat option"
  do_top_k_probs :: "(string \<times> rat) list option"
  do_index :: "int option"
  do_score :: "rat option"
  do_frame_number :: "int option"
  do_index_in_frame :: "int option"
  do_eval_type :: "EvaluationType option"
  do_event_uuids :: "string list"
  do_attrs :: AttributeContainer

text \<open>
  \<^verbatim>\<open>class Object\<close>. \<open>obj_support\<close> is the private \<^verbatim>\<open>_support\<close>; \<open>obj_frames\<close>
  is the dict \<^verbatim>\<open>frames\<close> in insertion order; \<open>obj_child_objects\<close> is the set
  \<^verbatim>\<open>child_objects\<close> of uuids, listed in the order an iteration visits them.
\<close>

record Object =
  obj_label :: "string option"
  obj_confidence :: "rat option"
  obj_support :: "FrameRanges option"
  obj_index :: "int option"
  obj_uuid :: "string option"
  obj_attrs :: AttributeContainer
  obj_frames :: "(int \<times> DetectedObject) list"
  obj_child_objects :: "string list"

text \<open>The property \<^verbatim>\<open>Object.support\<close>.\<close>

definition support :: "Object \<Rightarrow> error + FrameRanges" where
  "support self =
     (case obj_support self of
        Some s \<Rightarrow> Inr s
      | None \<Rightarrow> from_iterable (map fst (obj_frames self)))"

definition iter_detections :: "Object \<Rightarrow> DetectedObject list" where
  "iter_detections self = map snd (obj_frames self)"

text \<open>
  \<^verbatim>\<open>Object.add_detection\<close>. The detection is changed in place (its frame number,
  its label), so the function returns the object and the detection as they are after
  the call; \<open>k\<close> is \<^verbatim>\<open>obj.frame_number\<close> at the time of the store. \<^verbatim>\<open>self.frames[k] = obj\<close> replaces the value of an existing key where it
  stands and appends a new key.
\<close>

definition add_detection ::
  "Object \<Rightarrow> DetectedObject \<Rightarrow> int option \<Rightarrow> error + Object \<times> DetectedObject" where
  "add_detection self obj frame_number =
     (case (case frame_number of
              Some n \<Rightarrow> Inr (n, obj\<lparr>do_frame_number := Some n\<rparr>)
            | None \<Rightarrow>
                (case do_frame_number obj of
                   None \<Rightarrow> Inl ValueError
                 | Some k \<Rightarrow> Inr (k, obj))) of
        Inl e \<Rightarrow> Inl e
      | Inr (k, obj1) \<Rightarrow>
          (let obj2 = obj1\<lparr>do_label := None\<rparr> in
           Inr (self\<lparr>obj_frames := AList.update k obj2 (obj_frames self)\<rparr>, obj2)))"

section \<open>ObjectContainer\<close>

text \<open>
  An \<^verbatim>\<open>ObjectContainer\<close> is the list of its \<^verbatim>\<open>Object\<close>s. The label argument of
  the iterators is a string, \<^verbatim>\<open>"*"\<close> by default, compared with the optional label
  of each object.
\<close>

definition iter_objects :: "Object list \<Rightarrow> string option \<Rightarrow> Object list" where
  "iter_objects self label =
     filter (\<lambda>obj. \<not> (label \<noteq> Some ''*'' \<and> obj_label obj \<noteq> label)) self"

text \<open>
  \<^verbatim>\<open>ObjectContainer.iter_detected_objects\<close>: the inner loop runs over
  \<^verbatim>\<open>obj.child_objects\<close>, so what is yielded are uuid strings.
\<close>

definition iter_detected_objects :: "Object list \<Rightarrow> string option \<Rightarrow> string list" where
  "iter_detected_objects self label =
     concat (map obj_child_objects (iter_objects self label))"

text \<open>
  \<^verbatim>\<open>detobj.attrs\<close> on what \<open>iter_detected_objects\<close> yields: a string has no
  attribute \<^verbatim>\<open>attrs\<close>.
\<close>

definition str_attrs :: "string \<Rightarrow> error + AttributeContainer" where
  "str_attrs detobj = Inl AttributeError"

text \<open>
  \<^verbatim>\<open>ObjectContainer.iter_detected_object_attrs\<close>, run to its end: the pairs it
  yields, or the exception that stops it. The matching of
  \<^verbatim>\<open>AttributeContainer.iter_attrs\<close> (not among the sources) is the parameter
  \<open>iter_attrs\<close>.
\<close>

fun detected_object_attrs_loop ::
  "(AttributeContainer \<Rightarrow> Attribute list) \<Rightarrow> string list \<Rightarrow> error + (string \<times> Attribute) list" where
  "detected_object_attrs_loop iter_attrs [] = Inr []"
| "detected_object_attrs_loop iter_attrs (detobj # rest) =
     (case str_attrs detobj of
        Inl e \<Rightarrow> Inl e
      | Inr attrs \<Rightarrow>
          (case detected_object_attrs_loop iter_attrs rest of
             Inl e \<Rightarrow> Inl e
           | Inr ps \<Rightarrow> Inr (map (Pair detobj) (iter_attrs attrs) @ ps)))"

definition iter_detected_object_attrs ::
  "(AttributeContainer \<Rightarrow> Attribute list) \<Rightarrow> Object list \<Rightarrow> string option
     \<Rightarrow> error + (string \<times> Attribute) list" where
  "iter_detected_object_attrs iter_attrs self label =
     detected_object_attrs_loop iter_attrs (iter_detected_objects self label)"

section \<open>ObjectSchema and ObjectContainerSchema\<close>

text \<open>
  \<^verbatim>\<open>AttributeContainerSchema\<close> belongs to \<^verbatim>\<open>eta.core.data\<close>, which is not among
  the sources. An attribute schema is a value of a type parameter \<open>'a\<close>, and the
  operations the object schemas call on it are the fields of a record:
  \<^verbatim>\<open>AttributeContainerSchema()\<close>, \<^verbatim>\<open>add_attributes\<close> on a container of
  attributes, \<^verbatim>\<open>add_attributes\<close> handed the dict \<^verbatim>\<open>Object.frames\<close> (as
  \<^verbatim>\<open>ObjectSchema._add_object\<close> does), \<^verbatim>\<open>validate\<close> and \<^verbatim>\<open>merge_schema\<close>.
\<close>

record 'a acs_ops =
  acs_new :: 'a
  acs_add_attributes :: "'a \<Rightarrow> AttributeContainer \<Rightarrow> error + 'a"
  acs_add_frames_dict :: "'a \<Rightarrow> (int \<times> DetectedObject) list \<Rightarrow> error + 'a"
  acs_validate :: "'a \<Rightarrow> AttributeContainer \<Rightarrow> error + unit"
  acs_merge_schema :: "'a \<Rightarrow> 'a \<Rightarrow> error + 'a"

text \<open>
  \<^verbatim>\<open>class ObjectSchema\<close>: \<^verbatim>\<open>label\<close>, \<^verbatim>\<open>attrs\<close>, \<^verbatim>\<open>frames\<close> and
  \<^verbatim>\<open>child_objects\<close>, an \<^verbatim>\<open>ObjectContainerSchema\<close>, which is the dict
  \<^verbatim>\<open>schema\<close> from labels to object schemas, in insertion order.
\<close>

datatype 'a ObjectSchema =
  ObjectSchema (os_label: "string option") (os_attrs: 'a) (os_frames: 'a)
    (os_child_objects: "(string option \<times> 'a ObjectSchema) list")

type_synonym 'a ObjectContainerSchema = "(string option \<times> 'a ObjectSchema) list"

text \<open>\<^verbatim>\<open>ObjectSchema(label)\<close>.\<close>

definition new_ObjectSchema :: "'a acs_ops \<Rightarrow> string option \<Rightarrow> 'a ObjectSchema" where
  "new_ObjectSchema ops label = ObjectSchema label (acs_new ops) (acs_new ops) []"

text \<open>An argument that is an \<^verbatim>\<open>Object\<close> or a \<^verbatim>\<open>DetectedObject\<close>.\<close>

datatype labels = DObj DetectedObject | Obj Object

definition labels_label :: "labels \<Rightarrow> string option" where
  "labels_label x = (case x of DObj d \<Rightarrow> do_label d | Obj obj \<Rightarrow> obj_label obj)"

text \<open>\<^verbatim>\<open>ObjectSchema.validate_label\<close>.\<close>

definition os_validate_label :: "'a ObjectSchema \<Rightarrow> string option \<Rightarrow> error + unit" where
  "os_validate_label self label =
     (if label \<noteq> os_label self then Inl ObjectSchemaError else Inr ())"

definition os_add_object_attributes ::
  "'a acs_ops \<Rightarrow> 'a ObjectSchema \<Rightarrow> AttributeContainer \<Rightarrow> error + 'a ObjectSchema" where
  "os_add_object_attributes ops self attrs =
     (case acs_add_attributes ops (os_attrs self) attrs of
        Inl e \<Rightarrow> Inl e
      | Inr a \<Rightarrow> Inr (ObjectSchema (os_label self) a (os_frames self) (os_child_objects self)))"

definition os_add_frame_attributes ::
  "'a acs_ops \<Rightarrow> 'a ObjectSchema \<Rightarrow> AttributeContainer \<Rightarrow> error + 'a ObjectSchema" where
  "os_add_frame_attributes ops self attrs =
     (case acs_add_attributes ops (os_frames self) attrs of
        Inl e \<Rightarrow> Inl e
      | Inr f \<Rightarrow> Inr (ObjectSchema (os_label self) (os_attrs self) f (os_child_objects self)))"

text \<open>\<^verbatim>\<open>self.add_frame_attributes(obj.frames)\<close> of \<^verbatim>\<open>ObjectSchema._add_object\<close>.\<close>

definition os_add_frames_dict ::
  "'a acs_ops \<Rightarrow> 'a ObjectSchema \<Rightarrow> (int \<times> DetectedObject) list \<Rightarrow> error + 'a ObjectSchema" where
  "os_add_frames_dict ops self frames =
     (case acs_add_frames_dict ops (os_frames self) frames of
        Inl e \<Rightarrow> Inl e
      | Inr f \<Rightarrow> Inr (ObjectSchema (os_label self) (os_attrs self) f (os_child_objects self)))"

text \<open>
  \<^verbatim>\<open>dobj.frames\<close> on a \<^verbatim>\<open>DetectedObject\<close>: the class has no such attribute, so the
  access raises \<open>AttributeError\<close>.
\<close>

definition do_frames :: "DetectedObject \<Rightarrow> error + AttributeContainer" where
  "do_frames dobj = Inl AttributeError"

text \<open>
  \<^verbatim>\<open>ObjectSchema._add_detected_object\<close>: the attributes of the detection go to the
  object-level schema \<^verbatim>\<open>attrs\<close>, then \<^verbatim>\<open>dobj.frames\<close> is read.
\<close>

definition os_add_detected_object ::
  "'a acs_ops \<Rightarrow> 'a ObjectSchema \<Rightarrow> DetectedObject \<Rightarrow> bool \<Rightarrow> error + 'a ObjectSchema" where
  "os_add_detected_object ops self dobj validate_label =
     (case (if validate_label then os_validate_label self (do_label dobj) else Inr ()) of
        Inl e \<Rightarrow> Inl e
      | Inr _ \<Rightarrow>
          (case os_add_object_attributes ops self (do_attrs dobj) of
             Inl e \<Rightarrow> Inl e
           | Inr self1 \<Rightarrow>
               (case do_frames dobj of
                  Inl e \<Rightarrow> Inl e
                | Inr frames \<Rightarrow> os_add_frame_attributes ops self1 frames)))"

fun os_add_detections ::
  "'a acs_ops \<Rightarrow> 'a ObjectSchema \<Rightarrow> DetectedObject list \<Rightarrow> error + 'a ObjectSchema" where
  "os_add_detections ops self [] = Inr self"
| "os_add_detections ops self (dobj # rest) =
     (case os_add_detected_object ops self dobj False of
        Inl e \<Rightarrow> Inl e
      | Inr self1 \<Rightarrow> os_add_detections ops self1 rest)"

text \<open>\<^verbatim>\<open>ObjectSchema._add_object\<close>.\<close>

definition os_add_Object :: "'a acs_ops \<Rightarrow> 'a ObjectSchema \<Rightarrow> Object \<Rightarrow> error + 'a ObjectSchema" where
  "os_add_Object ops self obj =
     (case os_validate_label self (obj_label obj) of
        Inl e \<Rightarrow> Inl e
      | Inr _ \<Rightarrow>
          (case os_add_object_attributes ops self (obj_attrs obj) of
             Inl e \<Rightarrow> Inl e
           | Inr self1 \<Rightarrow>
               (case os_add_frames_dict ops self1 (obj_frames obj) of
                  Inl e \<Rightarrow> Inl e
                | Inr self2 \<Rightarrow> os_add_detections ops self2 (iter_detections obj))))"

text \<open>\<^verbatim>\<open>ObjectSchema.add_object\<close>.\<close>

definition os_add_object :: "'a acs_ops \<Rightarrow> 'a ObjectSchema \<Rightarrow> labels \<Rightarrow> error + 'a ObjectSchema" where
  "os_add_object ops self x =
     (case x of
        Obj obj \<Rightarrow> os_add_Object ops self obj
      | DObj dobj \<Rightarrow> os_add_detected_object ops self dobj True)"

text \<open>
  \<^verbatim>\<open>ObjectContainerSchema\<close>: \<^verbatim>\<open>has_object_label\<close>,
  \<^verbatim>\<open>_ensure_has_object_label\<close>, and \<^verbatim>\<open>self.schema[label].m(...)\<close> for a method
  \<open>m\<close> that changes the object schema in place.
\<close>

definition has_object_label :: "'a ObjectContainerSchema \<Rightarrow> string option \<Rightarrow> bool" where
  "has_object_label self label = (map_of self label \<noteq> None)"

definition ensure_has_object_label ::
  "'a acs_ops \<Rightarrow> 'a ObjectContainerSchema \<Rightarrow> string option \<Rightarrow> 'a ObjectContainerSchema" where
  "ensure_has_object_label ops self label =
     (if \<not> has_object_label self label
      then AList.update label (new_ObjectSchema ops label) self
      else self)"

definition on_label ::
  "'a ObjectContainerSchema \<Rightarrow> string option \<Rightarrow> ('a ObjectSchema \<Rightarrow> error + 'a ObjectSchema)
     \<Rightarrow> error + 'a ObjectContainerSchema" where
  "on_label self label m =
     (case map_of self label of
        None \<Rightarrow> Inl KeyError
      | Some obj_schema \<Rightarrow>
          (case m obj_schema of
             Inl e \<Rightarrow> Inl e
           | Inr obj_schema' \<Rightarrow> Inr (AList.update label obj_schema' self)))"

definition ocs_add_object_label ::
  "'a acs_ops \<Rightarrow> 'a ObjectContainerSchema \<Rightarrow> string option \<Rightarrow> 'a ObjectContainerSchema" where
  "ocs_add_object_label ops self label = ensure_has_object_label ops self label"

definition ocs_add_object_attributes ::
  "'a acs_ops \<Rightarrow> 'a ObjectContainerSchema \<Rightarrow> string option \<Rightarrow> AttributeContainer
     \<Rightarrow> error + 'a ObjectContainerSchema" where
  "ocs_add_object_attributes ops self label attrs =
     on_label (ensure_has_object_label ops self label) label
       (\<lambda>obj_schema. os_add_object_attributes ops obj_schema attrs)"

definition ocs_add_frame_attributes ::
  "'a acs_ops \<Rightarrow> 'a ObjectContainerSchema \<Rightarrow> string option \<Rightarrow> AttributeContainer
     \<Rightarrow> error + 'a ObjectContainerSchema" where
  "ocs_add_frame_attributes ops self label attrs =
     on_label (ensure_has_object_label ops self label) label
       (\<lambda>obj_schema. os_add_frame_attributes ops obj_schema attrs)"

text \<open>
  \<^verbatim>\<open>ObjectContainerSchema._add_detected_object\<close>: here the attributes of the
  detection go to the frame-level schema.
\<close>

definition ocs_add_detected_object ::
  "'a acs_ops \<Rightarrow> 'a ObjectContainerSchema \<Rightarrow> DetectedObject \<Rightarrow> string option
     \<Rightarrow> error + 'a ObjectContainerSchema" where
  "ocs_add_detected_object ops self dobj label =
     (case do_label dobj of
        Some l \<Rightarrow>
          ocs_add_frame_attributes ops (ocs_add_object_label ops self (Some l)) (Some l)
            (do_attrs dobj)
      | None \<Rightarrow> ocs_add_frame_attributes ops self label (do_attrs dobj))"

fun ocs_add_detections ::
  "'a acs_ops \<Rightarrow> 'a ObjectContainerSchema \<Rightarrow> DetectedObject list \<Rightarrow> string option
     \<Rightarrow> error + 'a ObjectContainerSchema" where
  "ocs_add_detections ops self [] label = Inr self"
| "ocs_add_detections ops self (dobj # rest) label =
     (case ocs_add_detected_object ops self dobj label of
        Inl e \<Rightarrow> Inl e
      | Inr self1 \<Rightarrow> ocs_add_detections ops self1 rest label)"

definition ocs_add_Object ::
  "'a acs_ops \<Rightarrow> 'a ObjectContainerSchema \<Rightarrow> Object \<Rightarrow> error + 'a ObjectContainerSchema" where
  "ocs_add_Object ops self obj =
     (case ocs_add_object_attributes ops (ocs_add_object_label ops self (obj_label obj))
             (obj_label obj) (obj_attrs obj) of
        Inl e \<Rightarrow> Inl e
      | Inr self1 \<Rightarrow> ocs_add_detections ops self1 (iter_detections obj) (obj_label obj))"

definition ocs_add_object ::
  "'a acs_ops \<Rightarrow> 'a ObjectContainerSchema \<Rightarrow> labels \<Rightarrow> error + 'a ObjectContainerSchema" where
  "ocs_add_object ops self x =
     (case x of
        Obj obj \<Rightarrow> ocs_add_Object ops self obj
      | DObj dobj \<Rightarrow> ocs_add_detected_object ops self dobj None)"

text \<open>\<^verbatim>\<open>ObjectSchema.add_child_object\<close>.\<close>

definition os_add_child_object ::
  "'a acs_ops \<Rightarrow> 'a ObjectSchema \<Rightarrow> Object \<Rightarrow> error + 'a ObjectSchema" where
  "os_add_child_object ops self obj =
     (case ocs_add_object ops (os_child_objects self) (Obj obj) of
        Inl e \<Rightarrow> Inl e
      | Inr c \<Rightarrow> Inr (ObjectSchema (os_label self) (os_attrs self) (os_frames self) c))"

text \<open>
  \<^verbatim>\<open>ObjectSchema.build_active_schema\<close>. \<open>objects\<close> is the optional dict from uuids
  to objects; \<^verbatim>\<open>None\<close> and the empty dict, both false in \<^verbatim>\<open>if objects\<close>, are the
  empty list. A \<^verbatim>\<open>DetectedObject\<close> has no \<^verbatim>\<open>child_objects\<close>.
\<close>

fun add_children ::
  "'a acs_ops \<Rightarrow> 'a ObjectSchema \<Rightarrow> (string \<times> Object) list \<Rightarrow> string list \<Rightarrow> error + 'a ObjectSchema" where
  "add_children ops schema objects [] = Inr schema"
| "add_children ops schema objects (uuid # rest) =
     (case map_of objects uuid of
        None \<Rightarrow> add_children ops schema objects rest
      | Some child \<Rightarrow>
          (case os_add_child_object ops schema child of
             Inl e \<Rightarrow> Inl e
           | Inr schema1 \<Rightarrow> add_children ops schema1 objects rest))"

definition build_active_schema ::
  "'a acs_ops \<Rightarrow> labels \<Rightarrow> (string \<times> Object) list \<Rightarrow> error + 'a ObjectSchema" where
  "build_active_schema ops obj objects =
     (case os_add_object ops (new_ObjectSchema ops (labels_label obj)) obj of
        Inl e \<Rightarrow> Inl e
      | Inr schema \<Rightarrow>
          if objects = [] then Inr schema
          else
            (case obj of
               DObj dobj \<Rightarrow> Inl AttributeError
             | Obj ob \<Rightarrow> add_children ops schema objects (obj_child_objects ob)))"

text \<open>\<^verbatim>\<open>ObjectSchema.validate\<close> and what it calls.\<close>

definition os_validate_object_attributes ::
  "'a acs_ops \<Rightarrow> 'a ObjectSchema \<Rightarrow> AttributeContainer \<Rightarrow> error + unit" where
  "os_validate_object_attributes ops self attrs = acs_validate ops (os_attrs self) attrs"

definition os_validate_frame_attributes ::
  "'a acs_ops \<Rightarrow> 'a ObjectSchema \<Rightarrow> AttributeContainer \<Rightarrow> error + unit" where
  "os_validate_frame_attributes ops self attrs = acs_validate ops (os_frames self) attrs"

definition os_validate_detected_object ::
  "'a acs_ops \<Rightarrow> 'a ObjectSchema \<Rightarrow> DetectedObject \<Rightarrow> bool \<Rightarrow> error + unit" where
  "os_validate_detected_object ops self dobj validate_label =
     (case (if validate_label then os_validate_label self (do_label dobj) else Inr ()) of
        Inl e \<Rightarrow> Inl e
      | Inr _ \<Rightarrow> os_validate_frame_attributes ops self (do_attrs dobj))"

fun os_validate_detections ::
  "'a acs_ops \<Rightarrow> 'a ObjectSchema \<Rightarrow> DetectedObject list \<Rightarrow> error + unit" where
  "os_validate_detections ops self [] = Inr ()"
| "os_validate_detections ops self (dobj # rest) =
     (case os_validate_detected_object ops self dobj False of
        Inl e \<Rightarrow> Inl e
      | Inr _ \<Rightarrow> os_validate_detections ops self rest)"

definition os_validate_Object :: "'a acs_ops \<Rightarrow> 'a ObjectSchema \<Rightarrow> Object \<Rightarrow> error + unit" where
  "os_validate_Object ops self obj =
     (case os_validate_label self (obj_label obj) of
        Inl e \<Rightarrow> Inl e
      | Inr _ \<Rightarrow>
          (case os_validate_object_attributes ops self (obj_attrs obj) of
             Inl e \<Rightarrow> Inl e
           | Inr _ \<Rightarrow> os_validate_detections ops self (iter_detections obj)))"

definition os_validate :: "'a acs_ops \<Rightarrow> 'a ObjectSchema \<Rightarrow> labels \<Rightarrow> error + unit" where
  "os_validate ops self x =
     (case x of
        Obj obj \<Rightarrow> os_validate_Object ops self obj
      | DObj dobj \<Rightarrow> os_validate_detected_object ops self dobj True)"

text \<open>
  \<^verbatim>\<open>build_active_schema(obj).validate(obj)\<close>: the outcome of the validation, or the
  exception of the construction.
\<close>

definition build_and_validate :: "'a acs_ops \<Rightarrow> labels \<Rightarrow> error + unit" where
  "build_and_validate ops obj =
     (case build_active_schema ops obj [] of
        Inl e \<Rightarrow> Inl e
      | Inr schema \<Rightarrow> os_validate ops schema obj)"

text \<open>
  \<^verbatim>\<open>ObjectSchema.merge_schema\<close> and \<^verbatim>\<open>ObjectContainerSchema.merge_schema\<close>. The
  loop of the latter runs over the entries of the other schema in their order;
  after \<^verbatim>\<open>_ensure_has_object_label\<close> the label is a key of the dict.
\<close>

fun os_merge_schema ::
  "'a acs_ops \<Rightarrow> 'a ObjectSchema \<Rightarrow> 'a ObjectSchema \<Rightarrow> error + 'a ObjectSchema"
and ocs_merge_schema ::
  "'a acs_ops \<Rightarrow> 'a ObjectContainerSchema \<Rightarrow> 'a ObjectContainerSchema
     \<Rightarrow> error + 'a ObjectContainerSchema" where
  "os_merge_schema ops self (ObjectSchema l a f c) =
     (case os_validate_label self l of
        Inl e \<Rightarrow> Inl e
      | Inr _ \<Rightarrow>
          (case acs_merge_schema ops (os_attrs self) a of
             Inl e \<Rightarrow> Inl e
           | Inr a' \<Rightarrow>
               (case acs_merge_schema ops (os_frames self) f of
                  Inl e \<Rightarrow> Inl e
                | Inr f' \<Rightarrow>
                    (case ocs_merge_schema ops (os_child_objects self) c of
                       Inl e \<Rightarrow> Inl e
                     | Inr c' \<Rightarrow> Inr (ObjectSchema (os_label self) a' f' c')))))"
| "ocs_merge_schema ops self [] = Inr self"
| "ocs_merge_schema ops self ((label, obj_schema) # rest) =
     (let self1 = ensure_has_object_label ops self label in
      case map_of self1 label of
        None \<Rightarrow> Inl KeyError
      | Some cur \<Rightarrow>
          (case os_merge_schema ops cur obj_schema of
             Inl e \<Rightarrow> Inl e
           | Inr merged \<Rightarrow> ocs_merge_schema ops (AList.update label merged self1) rest))"

section \<open>Well-formed schemas and their contents\<close>

text \<open>
  A container schema built by the methods of the class keeps every object schema
  under its own label, and a dict has each key once; the same holds inside every
  object schema.
\<close>

fun wf_os :: "'a ObjectSchema \<Rightarrow> bool"
and wf_cs :: "'a ObjectContainerSchema \<Rightarrow> bool" where
  "wf_os (ObjectSchema l a f c) = wf_cs c"
| "wf_cs [] = True"
| "wf_cs ((k, s) # rest) =
     (os_label s = k \<and> wf_os s \<and> map_of rest k = None \<and> wf_cs rest)"

text \<open>
  What a schema says, with the insertion order of the dicts forgotten: two schemas
  are equal as Python compares dicts exactly when their contents are equal.
\<close>

datatype 'a contents =
  Contents "string option" 'a 'a "string option \<Rightarrow> 'a contents option"

primrec os_contents :: "'a ObjectSchema \<Rightarrow> 'a contents" where
  "os_contents (ObjectSchema l a f c) =
     Contents l a f (map_of (map (map_prod id os_contents) c))"

definition cs_contents :: "'a ObjectContainerSchema \<Rightarrow> string option \<Rightarrow> 'a contents option" where
  "cs_contents c = map_of (map (map_prod id os_contents) c)"

text \<open>
  The entry of a container schema under a label, or the fresh object schema that
  \<^verbatim>\<open>_ensure_has_object_label\<close> would put there.
\<close>

definition entry_or_new :: "'a acs_ops \<Rightarrow> 'a ObjectContainerSchema \<Rightarrow> string option \<Rightarrow> 'a ObjectSchema" where
  "entry_or_new ops a k = (case map_of a k of None \<Rightarrow> new_ObjectSchema ops k | Some x \<Rightarrow> x)"

text \<open>
  What is asked of the attribute schemas for the merge of object schemas to be a
  union. Merging two of them may fail (they are then incompatible). Where it
  returns, it is commutative; merging into the empty schema returns the other
  schema; and it is associative: when \<open>x\<close> merged with \<open>y\<close>, and the result
  merged with \<open>z\<close>, both return, so do \<open>y\<close> merged with \<open>z\<close> and \<open>x\<close>
  merged with that, with the same result.
\<close>

definition union_laws :: "'a acs_ops \<Rightarrow> bool" where
  "union_laws ops =
     ((\<forall>x y xy. acs_merge_schema ops x y = Inr xy \<longrightarrow> acs_merge_schema ops y x = Inr xy)
      \<and> (\<forall>x. acs_merge_schema ops (acs_new ops) x = Inr x)
      \<and> (\<forall>x y z xy r.
            acs_merge_schema ops x y = Inr xy \<longrightarrow> acs_merge_schema ops xy z = Inr r \<longrightarrow>
              (\<exists>yz. acs_merge_schema ops y z = Inr yz \<and> acs_merge_schema ops x yz = Inr r)))"

text \<open>
  Two container schemas are compatible when the per-label schemas of each label
  they share can be merged.
\<close>

definition compatible :: "'a acs_ops \<Rightarrow> 'a ObjectContainerSchema \<Rightarrow> 'a ObjectContainerSchema \<Rightarrow> bool" where
  "compatible ops a b =
     (\<forall>k x y. map_of a k = Some x \<longrightarrow> map_of b k = Some y \<longrightarrow>
        (\<exists>r. os_merge_schema ops x y = Inr r))"

text \<open>
  Modelled from the spec: an attribute schema as the set of the declared
  \<open>(name, type, value)\<close> triples. Adding attributes and merging are unions (adding
  what is declared already changes nothing), and a container of attributes is valid
  when each of its attributes is declared. The dict \<^verbatim>\<open>Object.frames\<close> is no
  container of attributes: only the empty one adds nothing. This instance is used
  where a theorem is applied to a concrete input.
\<close>

definition declared :: "Attribute \<Rightarrow> string \<times> string \<times> string" where
  "declared a = (attr_name a, attr_type a, attr_value a)"

definition set_ops :: "(string \<times> string \<times> string) set acs_ops" where
  "set_ops =
     \<lparr>acs_new = {},
      acs_add_attributes = (\<lambda>S attrs. Inr (S \<union> set (map declared attrs))),
      acs_add_frames_dict = (\<lambda>S frames. if frames = [] then Inr S else Inl AttributeError),
      acs_validate =
        (\<lambda>S attrs. if list_all (\<lambda>a. declared a \<in> S) attrs then Inr () else Inl AttributeSchemaError),
      acs_merge_schema = (\<lambda>S T. Inr (S \<union> T))\<rparr>"

section \<open>Example values\<close>

text \<open>Concrete values, used where a theorem is applied to an input.\<close>

definition example_detection :: DetectedObject where
  "example_detection =
     \<lparr>do_label = None, do_bounding_box = None, do_mask = None, do_confidence = None,
      do_top_k_probs = None, do_index = None, do_score = None, do_frame_number = None,
      do_index_in_frame = None, do_eval_type = None, do_event_uuids = [], do_attrs = []\<rparr>"

definition example_object :: Object where
  "example_object =
     \<lparr>obj_label = Some ''car'', obj_confidence = None, obj_support = None, obj_index = None,
      obj_uuid = None, obj_attrs = [],
      obj_frames = [(7, example_detection), (3, example_detection), (4, example_detection)],
      obj_child_objects = [''child'']\<rparr>"

definition example_schema_a :: "(string \<times> string \<times> string) set ObjectContainerSchema" where
  "example_schema_a =
     [(Some ''car'', ObjectSchema (Some ''car'') {(''color'', ''categorical'', ''red'')} {} [])]"

definition example_schema_b :: "(string \<times> string \<times> string) set ObjectContainerSchema" where
  "example_schema_b =
     [(Some ''dog'', ObjectSchema (Some ''dog'') {} {(''pose'', ''categorical'', ''sitting'')} []),
      (Some ''car'', ObjectSchema (Some ''car'') {(''color'', ''categorical'', ''blue'')} {}
         [(Some ''wheel'', ObjectSchema (Some ''wheel'') {} {} [])])]"

definition example_schema_c :: "(string \<times> string \<times> string) set ObjectContainerSchema" where
  "example_schema_c =
     [(None, ObjectSchema None {} {} []),
      (Some ''car'', ObjectSchema (Some ''car'') {} {(''occluded'', ''boolean'', ''True'')} [])]"

section \<open>Properties of FrameRanges.add_range\<close>

lemma limits_snd:
  "snd (limits s) = (if ranges s = [] then None else Some (fr_last (last (ranges s))))"
  by (simp add: limits_def fr_limits_def)

text \<open>
  C3, as the code has it. \<open>add_range\<close> raises \<open>FrameRangesError\<close> exactly when the
  set is non-empty and \<open>first\<close> is at most the last frame of its final range.
  Otherwise the constructor of \<open>FrameRange\<close> still validates the pair: with
  \<open>first < 1\<close> or \<open>last < first\<close> it raises \<open>FrameRangeError\<close> and nothing is
  appended; only a pair with \<open>1 \<le> first \<le> last\<close> is appended (with a fresh
  cursor) and no error is raised.
\<close>

theorem add_range_cases:
  "add_range s (f, l) =
     (if ranges s \<noteq> [] \<and> f \<le> fr_last (last (ranges s)) then Inl FrameRangesError
      else if f < 1 \<or> l < f then Inl FrameRangeError
      else Inr (s\<lparr>ranges := ranges s @ [\<lparr>fr_first = f, fr_last = l, fr_frame = - 1\<rparr>]\<rparr>))"
  by (auto simp: add_range_def ingest_range_def limits_snd FrameRange_init_def
      validate_range_def Let_def)

theorem add_range_cases_witness:
  "add_range FrameRanges_empty (1, 3) =
     Inr \<lparr>ranges = [\<lparr>fr_first = 1, fr_last = 3, fr_frame = - 1\<rparr>], idx = 0, started = False\<rparr>
   \<and> add_range \<lparr>ranges = [\<lparr>fr_first = 1, fr_last = 3, fr_frame = - 1\<rparr>], idx = 0,
        started = False\<rparr> (3, 5) = Inl FrameRangesError"
  using add_range_cases [of FrameRanges_empty 1 3]
    add_range_cases [of "\<lparr>ranges = [\<lparr>fr_first = 1, fr_last = 3, fr_frame = - 1\<rparr>], idx = 0,
        started = False\<rparr>" 3 5]
  by (simp add: FrameRanges_empty_def)

text \<open>
  The claim as the specification words it fails on the empty set with the pair
  \<open>(5, 3)\<close>: the condition for the interval-set error is false there, yet an error is
  raised and nothing is appended.
\<close>

theorem add_range_counterexample:
  "ranges FrameRanges_empty = [] \<and> add_range FrameRanges_empty (5, 3) = Inl FrameRangeError"
  by (simp add: add_range_def ingest_range_def limits_snd FrameRange_init_def
      validate_range_def FrameRanges_empty_def Let_def)

section \<open>Properties of FrameRanges.simplify\<close>

lemma simplify_loop_eq:
  "simplify_loop acc cur did rs =
     (acc @ merge_from cur (map fr_limits rs), did \<or> 0 < mergeable_pairs (cur # map fr_limits rs))"
  by (induction rs arbitrary: acc cur did) (auto simp: Let_def)

lemma mergeable_pairs_snd:
  "snd p = snd p' \<Longrightarrow> mergeable_pairs (p # ps) = mergeable_pairs (p' # ps)"
  by (cases ps) auto

lemma merge_from_length:
  "length (merge_from cur ps) + mergeable_pairs (cur # ps) = Suc (length ps)"
proof (induction ps arbitrary: cur)
  case Nil
  then show ?case by simp
next
  case (Cons q ps)
  have "mergeable_pairs ((fst cur, snd q) # ps) = mergeable_pairs (q # ps)"
    by (rule mergeable_pairs_snd) simp
  with Cons.IH [of "(fst cur, snd q)"] Cons.IH [of q] show ?case by simp
qed

lemma disjoint_increasing_hd:
  "disjoint_increasing (q # ps) \<Longrightarrow> 1 \<le> fst q \<and> fst q \<le> snd q"
  by (cases ps) auto

lemma merge_from_nonempty: "merge_from cur ps \<noteq> []"
  by (induction ps arbitrary: cur) auto

lemma merge_from_frames:
  "disjoint_increasing (cur # ps) \<Longrightarrow> frames_of (merge_from cur ps) = frames_of (cur # ps)"
proof (induction ps arbitrary: cur)
  case Nil
  then show ?case by simp
next
  case (Cons q ps)
  show ?case
  proof (cases "fst q \<le> snd cur + 1")
    case True
    with Cons.prems have eq: "fst q = snd cur + 1" by simp
    from Cons.prems have di: "disjoint_increasing ((fst cur, snd q) # ps)"
      by (cases ps) auto
    have "[fst cur .. snd q] = [fst cur .. snd cur] @ [fst q .. snd q]"
      using Cons.prems eq disjoint_increasing_hd [of q ps]
        upto_split2 [of "fst cur" "snd cur" "snd q"] by simp
    with True Cons.IH [OF di] show ?thesis by (simp add: frames_of_def)
  next
    case False
    with Cons.prems have "disjoint_increasing (q # ps)" by simp
    with False Cons.IH [of q] show ?thesis by (simp add: frames_of_def)
  qed
qed

lemma merge_from_valid:
  "disjoint_increasing (cur # ps) \<Longrightarrow>
     disjoint_increasing (merge_from cur ps) \<and> mergeable_pairs (merge_from cur ps) = 0
     \<and> fst (hd (merge_from cur ps)) = fst cur"
proof (induction ps arbitrary: cur)
  case Nil
  then show ?case by simp
next
  case (Cons q ps)
  show ?case
  proof (cases "fst q \<le> snd cur + 1")
    case True
    from Cons.prems have di: "disjoint_increasing ((fst cur, snd q) # ps)"
      by (cases ps) auto
    with True Cons.IH [OF di] show ?thesis by simp
  next
    case False
    with Cons.prems have di: "disjoint_increasing (q # ps)" by simp
    from Cons.IH [OF di] merge_from_nonempty [of q ps]
    obtain t ts where m: "merge_from q ps = t # ts" "fst t = fst q"
      by (cases "merge_from q ps") auto
    with False Cons.prems Cons.IH [OF di] show ?thesis by auto
  qed
qed


lemma fr_limits_fresh: "fr_limits (fresh_range p) = p"
  by (simp add: fr_limits_def fresh_range_def)

lemma ingest_all_ok:
  "disjoint_increasing ps \<Longrightarrow>
   ranges s = [] \<or> ps = [] \<or> fr_last (last (ranges s)) < fst (hd ps) \<Longrightarrow>
   ingest_all s ps = Inr (s\<lparr>ranges := ranges s @ map fresh_range ps\<rparr>)"
proof (induction ps arbitrary: s)
  case Nil
  then show ?case by simp
next
  case (Cons p ps)
  from Cons.prems(1) have p: "1 \<le> fst p" "fst p \<le> snd p"
    using disjoint_increasing_hd by blast+
  have step: "ingest_range s p = Inr (s\<lparr>ranges := ranges s @ [fresh_range p]\<rparr>)"
    using Cons.prems(2) p
    by (auto simp: ingest_range_def limits_snd FrameRange_init_def validate_range_def
        Let_def fresh_range_def)
  have di: "disjoint_increasing ps"
    using Cons.prems(1) by (cases ps) auto
  have nxt: "ps = [] \<or> fr_last (fresh_range p) < fst (hd ps)"
    using Cons.prems(1) by (cases ps) (auto simp: fresh_range_def)
  show ?case
    using step Cons.IH [OF di, of "s\<lparr>ranges := ranges s @ [fresh_range p]\<rparr>"] nxt
    by auto
qed

lemma to_list_frames_of: "to_list s = frames_of (to_range_tuples s)"
  by (simp add: to_list_def frames_of_def to_range_tuples_def fr_to_list_def [abs_def]
      fr_limits_def comp_def)

lemma simplify_fixed:
  assumes "mergeable_pairs (to_range_tuples s) = 0" and "idx s = 0" and "\<not> started s"
    and "ranges s = [] \<or> fr_frame (hd (ranges s)) = - 1"
  shows "simplify s = Inr s"
proof (cases "ranges s")
  case Nil
  then show ?thesis by (simp add: simplify_def)
next
  case (Cons r rs)
  with assms(1) have "mergeable_pairs (fr_limits r # map fr_limits rs) = 0"
    by (simp add: to_range_tuples_def)
  moreover have "reset s = s"
    using Cons assms(2-4) by (simp add: reset_def fr_reset_def)
  ultimately show ?thesis
    using Cons by (simp add: simplify_def simplify_loop_eq)
qed

text \<open>
  C4. On a valid interval set \<open>simplify\<close> returns; simplifying its result again
  returns that very result (cursor included); the result is a valid interval set with
  the same frames, in which no adjacent pair with \<open>next.first \<le> prev.last + 1\<close>
  is left, and it has exactly one interval less for every such pair of the input: the
  pairs merged are those and no others.
\<close>

theorem simplify_idempotent:
  assumes "valid s"
  shows "\<exists>s1. simplify s = Inr s1 \<and> simplify s1 = Inr s1 \<and> valid s1
           \<and> to_list s1 = to_list s
           \<and> mergeable_pairs (to_range_tuples s1) = 0
           \<and> num_ranges s1 + mergeable_pairs (to_range_tuples s) = num_ranges s"
proof (cases "ranges s")
  case Nil
  then have "simplify s = Inr s" by (simp add: simplify_def)
  with Nil assms show ?thesis by (simp add: to_range_tuples_def)
next
  case (Cons r rs)
  let ?cur = "fr_limits r" and ?ps = "map fr_limits rs"
  let ?ts = "merge_from ?cur ?ps"
  have tup: "to_range_tuples s = ?cur # ?ps"
    using Cons by (simp add: to_range_tuples_def)
  with assms have di: "disjoint_increasing (?cur # ?ps)" by (simp add: valid_def)
  note mv = merge_from_valid [OF di] and mf = merge_from_frames [OF di]
    and ml = merge_from_length [of ?cur ?ps]
  show ?thesis
  proof (cases "0 < mergeable_pairs (?cur # ?ps)")
    case False
    then have m0: "mergeable_pairs (to_range_tuples s) = 0" using tup by simp
    have s1: "simplify s = Inr (reset s)"
      using Cons False by (simp add: simplify_def simplify_loop_eq)
    have rt: "to_range_tuples (reset s) = to_range_tuples s"
    proof -
      have "map fr_limits (map fr_reset xs) = map fr_limits xs" for xs
        by (simp add: fr_limits_def fr_reset_def)
      then have "to_range_tuples (reset s)
          = map fr_limits (take (idx s + 1) (ranges s)) @ map fr_limits (drop (idx s + 1) (ranges s))"
        by (simp add: to_range_tuples_def reset_def)
      also have "\<dots> = to_range_tuples s"
        by (simp add: to_range_tuples_def flip: map_append)
      finally show ?thesis .
    qed
    have "simplify (reset s) = Inr (reset s)"
    proof (rule simplify_fixed)
      show "mergeable_pairs (to_range_tuples (reset s)) = 0" using rt m0 by simp
      show "idx (reset s) = 0" by (simp add: reset_def)
      show "\<not> started (reset s)" by (simp add: reset_def)
      show "ranges (reset s) = [] \<or> fr_frame (hd (ranges (reset s))) = - 1"
        using Cons by (simp add: reset_def fr_reset_def)
    qed
    with s1 rt m0 assms show ?thesis
      by (simp add: valid_def to_list_frames_of num_ranges_def reset_def)
  next
    case True
    let ?s1 = "\<lparr>ranges = map fresh_range ?ts, idx = 0, started = False\<rparr>"
    have cl: "clear s = \<lparr>ranges = [], idx = 0, started = False\<rparr>"
      by (simp add: clear_def reset_def)
    have "ingest_all (clear s) ?ts = Inr ((clear s)\<lparr>ranges := ranges (clear s) @ map fresh_range ?ts\<rparr>)"
      by (rule ingest_all_ok) (use mv cl in simp_all)
    then have ia: "ingest_all (clear s) ?ts = Inr ?s1" by (simp add: cl)
    have s1: "simplify s = Inr ?s1"
      using Cons True ia by (simp add: simplify_def simplify_loop_eq)
    have rt: "to_range_tuples ?s1 = ?ts"
      by (simp add: to_range_tuples_def comp_def fr_limits_fresh)
    have "simplify ?s1 = Inr ?s1"
    proof (rule simplify_fixed)
      show "mergeable_pairs (to_range_tuples ?s1) = 0" using rt mv by simp
      show "ranges ?s1 = [] \<or> fr_frame (hd (ranges ?s1)) = - 1"
        using merge_from_nonempty [of ?cur ?ps]
        by (cases ?ts) (simp_all add: fresh_range_def)
    qed simp_all
    moreover have "num_ranges ?s1 + mergeable_pairs (to_range_tuples s) = num_ranges s"
      using ml tup Cons by (simp add: num_ranges_def)
    ultimately show ?thesis
      using s1 rt mv mf tup by (simp add: valid_def to_list_frames_of)
  qed
qed

theorem simplify_idempotent_witness:
  "valid \<lparr>ranges = [\<lparr>fr_first = 1, fr_last = 3, fr_frame = 2\<rparr>,
                    \<lparr>fr_first = 4, fr_last = 6, fr_frame = - 1\<rparr>,
                    \<lparr>fr_first = 8, fr_last = 9, fr_frame = - 1\<rparr>], idx = 0, started = True\<rparr>
   \<and> (\<exists>s1. simplify \<lparr>ranges = [\<lparr>fr_first = 1, fr_last = 3, fr_frame = 2\<rparr>,
                    \<lparr>fr_first = 4, fr_last = 6, fr_frame = - 1\<rparr>,
                    \<lparr>fr_first = 8, fr_last = 9, fr_frame = - 1\<rparr>], idx = 0, started = True\<rparr>
              = Inr s1
         \<and> simplify s1 = Inr s1
         \<and> to_range_tuples s1 = [(1, 6), (8, 9)])"
proof -
  let ?s = "\<lparr>ranges = [\<lparr>fr_first = 1, fr_last = 3, fr_frame = 2\<rparr>,
                    \<lparr>fr_first = 4, fr_last = 6, fr_frame = - 1\<rparr>,
                    \<lparr>fr_first = 8, fr_last = 9, fr_frame = - 1\<rparr>], idx = 0, started = True\<rparr>"
  have v: "valid ?s"
    by (simp add: valid_def to_range_tuples_def fr_limits_def)
  have e: "simplify ?s =
      Inr \<lparr>ranges = [\<lparr>fr_first = 1, fr_last = 6, fr_frame = - 1\<rparr>,
                     \<lparr>fr_first = 8, fr_last = 9, fr_frame = - 1\<rparr>], idx = 0, started = False\<rparr>"
    by (simp add: simplify_def fr_limits_def clear_def reset_def ingest_range_def limits_def
        FrameRange_init_def validate_range_def Let_def)
  from simplify_idempotent [OF v] obtain s1 where
    "simplify ?s = Inr s1" "simplify s1 = Inr s1" by blast
  with e v show ?thesis
    by (simp add: to_range_tuples_def fr_limits_def)
qed

section \<open>The human string of a FrameRange\<close>

lemma digit_char_props:
  assumes "d < 10"
  shows "digit_val (digit_char d) = d" and "is_digit (digit_char d)"
    and "\<not> is_space (digit_char d)" and "digit_char d \<noteq> CHR ''-''"
proof -
  have m: "(of_char (digit_char d) :: nat) = 48 + d"
    using assms by (simp add: digit_char_def)
  show "digit_val (digit_char d) = d" by (simp add: digit_val_def m)
  show "is_digit (digit_char d)" using assms by (simp add: is_digit_def m)
  have low: "(of_char c :: nat) < 48" if "is_space c \<or> c = CHR ''-''" for c
    using that by (auto simp: is_space_def)
  from low [of "digit_char d"] m
  show "\<not> is_space (digit_char d)" "digit_char d \<noteq> CHR ''-''"
    by auto
qed

lemma digits_to_nat_snoc: "digits_to_nat (s @ [c]) = 10 * digits_to_nat s + digit_val c"
  by (simp add: digits_to_nat_def)

lemma nat_to_str_props:
  "digits_to_nat (nat_to_str n) = n \<and> list_all is_digit (nat_to_str n)
   \<and> nat_to_str n \<noteq> [] \<and> list_all (\<lambda>c. \<not> is_space c \<and> c \<noteq> CHR ''-'') (nat_to_str n)"
proof (induction n rule: nat_to_str.induct)
  case (1 n)
  show ?case
  proof (cases "n < 10")
    case True
    then show ?thesis
      by (subst (1 2 3 4) nat_to_str.simps) (simp add: digit_char_props digits_to_nat_def)
  next
    case False
    have d: "n mod 10 < 10" by simp
    from False 1 show ?thesis
      by (subst (1 2 3 4) nat_to_str.simps)
        (simp add: digits_to_nat_snoc digit_char_props [OF d])
  qed
qed

lemma py_strip_id:
  assumes "list_all (\<lambda>c. \<not> is_space c) s"
  shows "py_strip s = s"
proof -
  have "dropWhile is_space t = t" if "list_all (\<lambda>c. \<not> is_space c) t" for t
    using that by (cases t) auto
  from this [of s] this [of "rev s"] assms show ?thesis by (simp add: py_strip_def)
qed

lemma py_int_fmt_d:
  assumes "0 \<le> i"
  shows "py_int (fmt_d i) = Inr i"
proof -
  let ?s = "nat_to_str (nat i)"
  from nat_to_str_props [of "nat i"] have p: "digits_to_nat ?s = nat i" "list_all is_digit ?s"
    "?s \<noteq> []" "list_all (\<lambda>c. \<not> is_space c \<and> c \<noteq> CHR ''-'') ?s" by auto
  from p(4) have ns: "list_all (\<lambda>c. \<not> is_space c) ?s" by (simp add: list_all_iff)
  from p(3) obtain c cs where cs: "?s = c # cs" by (cases ?s) auto
  with p(4) have c: "c \<noteq> CHR ''-''" by simp
  from cs p(2) have "is_digit c" by simp
  then have c2: "c \<noteq> CHR ''+''" by (auto simp: is_digit_def)
  show ?thesis
    using assms p(1,2) c c2 cs py_strip_id [OF ns]
    by (simp add: py_int_def fmt_d_def)
qed

lemma split_chr_none: "sep \<notin> set a \<Longrightarrow> split_chr sep a = [a]"
  by (induction a) auto

lemma split_chr_one: "sep \<notin> set a \<Longrightarrow> split_chr sep (a @ sep # b) = a # split_chr sep b"
  by (induction a) auto

lemma fmt_d_no_dash: "0 \<le> i \<Longrightarrow> CHR ''-'' \<notin> set (fmt_d i)"
  using nat_to_str_props [of "nat i"] by (auto simp: fmt_d_def list_all_iff)

text \<open>
  C8, as the code has it. For all integers with \<open>1 \<le> first \<le> last\<close> the
  constructor returns an interval, and parsing its human string gives back that same
  interval. (With \<open>first < 1\<close> the constructor raises \<open>FrameRangeError\<close> and there
  is no interval to render: see the counterexample.)
\<close>

theorem human_str_roundtrip:
  assumes "1 \<le> f" and "f \<le> l"
  shows "\<exists>r. FrameRange_init f l = Inr r \<and> fr_from_human_str (fr_to_human_str r) = Inr r"
proof -
  let ?r = "\<lparr>fr_first = f, fr_last = l, fr_frame = - 1\<rparr>"
  have i: "FrameRange_init f l = Inr ?r"
    using assms by (simp add: FrameRange_init_def validate_range_def)
  have f0: "0 \<le> f" and l0: "0 \<le> l" using assms by auto
  have "fr_from_human_str (fr_to_human_str ?r) = Inr ?r"
  proof (cases "f = l")
    case True
    then show ?thesis
      using i f0 by (simp add: fr_to_human_str_def fr_from_human_str_def
          split_chr_none [OF fmt_d_no_dash] py_int_fmt_d)
  next
    case False
    then show ?thesis
      using i f0 l0 by (simp add: fr_to_human_str_def fr_from_human_str_def
          split_chr_one [OF fmt_d_no_dash] split_chr_none [OF fmt_d_no_dash] py_int_fmt_d)
  qed
  with i show ?thesis by blast
qed

theorem human_str_roundtrip_witness:
  "(1::int) \<le> 3 \<and> (3::int) \<le> 12 \<and> fr_to_human_str \<lparr>fr_first = 3, fr_last = 12, fr_frame = - 1\<rparr> = ''3-12''
   \<and> fr_from_human_str ''3-12'' = Inr \<lparr>fr_first = 3, fr_last = 12, fr_frame = - 1\<rparr>"
proof -
  have s: "fr_to_human_str \<lparr>fr_first = 3, fr_last = 12, fr_frame = - 1\<rparr> = ''3-12''"
    by code_simp
  from human_str_roundtrip [of 3 12] s show ?thesis
    by (simp add: FrameRange_init_def validate_range_def)
qed

text \<open>
  The integers \<open>first = last = 0\<close> satisfy \<open>first \<le> last\<close>, yet no interval
  can be constructed from them.
\<close>

theorem human_str_roundtrip_counterexample:
  "(0::int) \<le> 0 \<and> FrameRange_init 0 0 = Inl FrameRangeError"
  by (simp add: FrameRange_init_def validate_range_def)

section \<open>Interval sets from frames, and boolean masks\<close>

lemma frames_of_Cons: "frames_of (p # ps) = [fst p .. snd p] @ frames_of ps"
  by (simp add: frames_of_def)

lemma frames_of_lower:
  "disjoint_increasing (q # ps) \<Longrightarrow> y \<in> set (frames_of (q # ps)) \<Longrightarrow> fst q \<le> y"
proof (induction ps arbitrary: q)
  case Nil
  then show ?case by (simp add: frames_of_def)
next
  case (Cons p ps)
  from Cons.prems(2) have "y \<in> set [fst q .. snd q] \<or> y \<in> set (frames_of (p # ps))"
    by (simp add: frames_of_Cons)
  then show ?case
  proof
    assume "y \<in> set [fst q .. snd q]" then show ?thesis by simp
  next
    assume "y \<in> set (frames_of (p # ps))"
    with Cons.IH [of p] Cons.prems(1) have "fst p \<le> y" by simp
    with Cons.prems(1) show ?thesis by simp
  qed
qed

lemma frames_of_sorted:
  "disjoint_increasing ps \<Longrightarrow> sorted_wrt (<) (frames_of ps) \<and> (\<forall>y\<in>set (frames_of ps). 1 \<le> y)"
proof (induction ps rule: disjoint_increasing.induct)
  case 1
  then show ?case by (simp add: frames_of_def)
next
  case (2 p)
  then show ?case by (simp add: frames_of_def sorted_wrt_upto)
next
  case (3 p q ps)
  then have di: "disjoint_increasing (q # ps)" and pq: "snd p < fst q" and p1: "1 \<le> fst p"
    by auto
  have low: "\<And>y. y \<in> set (frames_of (q # ps)) \<Longrightarrow> fst q \<le> y"
    using frames_of_lower [OF di] .
  have "sorted_wrt (<) ([fst p .. snd p] @ frames_of (q # ps))"
    unfolding sorted_wrt_append using 3 di pq low by (fastforce simp: sorted_wrt_upto)
  moreover have "\<forall>y\<in>set ([fst p .. snd p] @ frames_of (q # ps)). 1 \<le> y"
    using 3 di p1 by auto
  ultimately show ?case by (simp only: frames_of_Cons)
qed

lemma ranges_loop_props:
  "1 \<le> f \<Longrightarrow> f \<le> l \<Longrightarrow> sorted_wrt (<) (l # vs) \<Longrightarrow>
     disjoint_increasing (ranges_loop f l vs)
     \<and> frames_of (ranges_loop f l vs) = [f .. l] @ vs
     \<and> fst (hd (ranges_loop f l vs)) = f \<and> ranges_loop f l vs \<noteq> []"
proof (induction vs arbitrary: f l)
  case Nil
  then show ?case by (simp add: frames_of_def)
next
  case (Cons v vs)
  show ?case
  proof (cases "v = l + 1")
    case True
    have "sorted_wrt (<) ((l + 1) # vs)" using Cons.prems(3) True by simp
    with Cons.IH [of f "l + 1"] Cons.prems(1,2)
    have ih: "disjoint_increasing (ranges_loop f (l + 1) vs)"
      "frames_of (ranges_loop f (l + 1) vs) = [f .. l + 1] @ vs"
      "fst (hd (ranges_loop f (l + 1) vs)) = f" "ranges_loop f (l + 1) vs \<noteq> []" by auto
    have "[f .. l + 1] = [f .. l] @ [l + 1]"
      using Cons.prems(2) by (simp add: upto_rec2)
    with ih True show ?thesis by simp
  next
    case False
    with Cons.prems(3) have lv: "l < v" by simp
    have "sorted_wrt (<) (v # vs)" using Cons.prems(3) by simp
    with Cons.IH [of v v] Cons.prems(1,2) lv
    have ih: "disjoint_increasing (ranges_loop v v vs)"
      "frames_of (ranges_loop v v vs) = [v .. v] @ vs"
      "fst (hd (ranges_loop v v vs)) = v" "ranges_loop v v vs \<noteq> []" by auto
    from ih(4) obtain t ts where t: "ranges_loop v v vs = t # ts"
      by (cases "ranges_loop v v vs") auto
    with ih(3) have "fst t = v" by simp
    with t ih(1) Cons.prems(1,2) lv have "disjoint_increasing ((f, l) # ranges_loop v v vs)"
      by simp
    with False ih show ?thesis by (simp add: frames_of_Cons)
  qed
qed

lemma FrameRanges_init_ok:
  assumes "disjoint_increasing ps"
  shows "FrameRanges_init ps = Inr \<lparr>ranges = map fresh_range ps, idx = 0, started = False\<rparr>"
  using ingest_all_ok [OF assms, of FrameRanges_empty]
  by (simp add: FrameRanges_init_def FrameRanges_empty_def)

lemma to_range_tuples_fresh:
  "to_range_tuples \<lparr>ranges = map fresh_range ps, idx = i, started = b\<rparr> = ps"
  by (simp add: to_range_tuples_def comp_def fr_limits_fresh)

lemma from_iterable_sorted:
  assumes "sorted_wrt (<) xs" and "\<forall>x\<in>set xs. 1 \<le> x"
  shows "\<exists>r. from_iterable xs = Inr r \<and> to_list r = xs \<and> valid r"
proof (cases xs)
  case Nil
  then show ?thesis
    by (simp add: from_iterable_def iterable_to_ranges_def FrameRanges_init_def
        FrameRanges_empty_def to_list_def valid_def to_range_tuples_def)
next
  case (Cons v vs)
  have "sorted xs" using assms(1) by (simp add: strict_sorted_iff)
  then have so: "sort xs = xs" by (simp add: sorted_sort_id)
  have "1 \<le> v" using assms(2) Cons by simp
  with ranges_loop_props [of v v vs] assms(1) Cons
  have p: "disjoint_increasing (ranges_loop v v vs)" "frames_of (ranges_loop v v vs) = xs"
    by auto
  have it: "iterable_to_ranges xs = ranges_loop v v vs"
    unfolding iterable_to_ranges_def so by (simp add: Cons)
  show ?thesis
    using FrameRanges_init_ok [OF p(1)] p
    by (simp add: from_iterable_def it to_list_frames_of to_range_tuples_fresh valid_def)
qed

lemma from_iterable_distinct:
  assumes "distinct xs" and "\<forall>x\<in>set xs. 1 \<le> x"
  shows "\<exists>r. from_iterable xs = Inr r \<and> to_list r = sort xs \<and> valid r"
proof -
  have e: "from_iterable xs = from_iterable (sort xs)"
    by (simp add: from_iterable_def iterable_to_ranges_def sorted_sort_id)
  have "sorted_wrt (<) (sort xs)" using assms(1) by (simp add: strict_sorted_iff)
  from from_iterable_sorted [OF this] assms(2) e show ?thesis by simp
qed

lemma set_true_ok:
  "\<forall>j\<in>set js. 0 \<le> j \<and> j < int (length bs) \<Longrightarrow>
   \<exists>bs'. set_true bs js = Inr bs' \<and> length bs' = length bs
       \<and> (\<forall>k<length bs. bs' ! k = (bs ! k \<or> int k \<in> set js))"
proof (induction js arbitrary: bs)
  case Nil
  then show ?case by simp
next
  case (Cons j js)
  let ?b = "bs[nat j := True]"
  from Cons.prems have j: "0 \<le> j" "j < int (length bs)" by auto
  from Cons.prems have "\<forall>i\<in>set js. 0 \<le> i \<and> i < int (length ?b)" by simp
  from Cons.IH [OF this] obtain bs' where b: "set_true ?b js = Inr bs'" "length bs' = length bs"
    "\<forall>k<length bs. bs' ! k = (?b ! k \<or> int k \<in> set js)" by auto
  have "bs' ! k = (bs ! k \<or> int k \<in> set (j # js))" if "k < length bs" for k
    using b(3) that j by (cases "k = nat j") (auto simp: nth_list_update)
  with b j show ?case by (simp add: Let_def)
qed


lemma flatnonzero_sorted:
  "sorted_wrt (<) (map (\<lambda>i. 1 + i) (flatnonzero bs))"
proof -
  have "sorted_wrt (<) (filter (\<lambda>i. bs ! i) [0 ..< length bs])"
    by (rule sorted_wrt_filter) simp
  then show ?thesis
    by (simp add: flatnonzero_def sorted_wrt_map)
qed

lemma flatnonzero_set:
  "set (map (\<lambda>i. 1 + i) (flatnonzero bs)) = {1 + int k | k. k < length bs \<and> bs ! k}"
  by (auto simp: flatnonzero_def)

text \<open>
  C7. For a valid interval set and a size \<open>n \<ge> 0\<close>, \<open>to_bools\<close> returns a mask
  of length \<open>n\<close> whose entry \<open>k\<close> tells whether frame \<open>k + 1\<close> is in the set,
  and \<open>from_bools\<close> of that mask returns a valid interval set whose frames are exactly
  the frames of the set that are \<open>\<le> n\<close>.
\<close>

theorem bools_roundtrip:
  assumes "valid s" and "0 \<le> n"
  shows "\<exists>bools r. to_bools s (Some n) = Inr bools \<and> length bools = nat n
           \<and> (\<forall>k<nat n. bools ! k = (int k + 1 \<in> set (to_list s)))
           \<and> from_bools bools = Inr r \<and> valid r
           \<and> to_list r = filter (\<lambda>i. i \<le> n) (to_list s)"
proof -
  let ?L = "to_list s"
  let ?js = "map (\<lambda>i. i - 1) (filter (\<lambda>i. i \<le> n) ?L)"
  from assms(1) frames_of_sorted [of "to_range_tuples s"]
  have L: "sorted_wrt (<) ?L" "\<forall>y\<in>set ?L. 1 \<le> y"
    by (simp_all add: valid_def to_list_frames_of)
  have "\<forall>j\<in>set ?js. 0 \<le> j \<and> j < int (length (replicate (nat n) False))"
    using L(2) assms(2) by auto
  from set_true_ok [OF this] obtain bools where
    b: "set_true (replicate (nat n) False) ?js = Inr bools" "length bools = nat n"
      "\<forall>k<nat n. bools ! k = (int k \<in> set ?js)" by auto
  have mem: "bools ! k = (int k + 1 \<in> set ?L)" if "k < nat n" for k
  proof -
    have "int k \<in> set ?js \<longleftrightarrow> int k + 1 \<in> set ?L"
      using that by (auto simp: image_iff)
    with b(3) that show ?thesis by simp
  qed
  let ?M = "map (\<lambda>i. 1 + i) (flatnonzero bools)"
  have "set ?M = set (filter (\<lambda>i. i \<le> n) ?L)"
  proof -
    have "set ?M = {1 + int k | k. k < nat n \<and> int k + 1 \<in> set ?L}"
      unfolding flatnonzero_set using mem b(2) by auto
    also have "\<dots> = {i \<in> set ?L. i \<le> n}"
    proof (rule set_eqI, rule iffI)
      fix i assume "i \<in> {1 + int k | k. k < nat n \<and> int k + 1 \<in> set ?L}"
      then show "i \<in> {i \<in> set ?L. i \<le> n}" by (auto simp: add.commute)
    next
      fix i assume "i \<in> {i \<in> set ?L. i \<le> n}"
      then have i: "i \<in> set ?L" "i \<le> n" "1 \<le> i" using L(2) by auto
      then have "i = 1 + int (nat (i - 1))" "nat (i - 1) < nat n" "int (nat (i - 1)) + 1 \<in> set ?L"
        by auto
      then show "i \<in> {1 + int k | k. k < nat n \<and> int k + 1 \<in> set ?L}" by blast
    qed
    finally show ?thesis by simp
  qed
  moreover have "sorted_wrt (<) (filter (\<lambda>i. i \<le> n) ?L)"
    using L(1) by (rule sorted_wrt_filter)
  ultimately have M: "?M = filter (\<lambda>i. i \<le> n) ?L"
    using flatnonzero_sorted [of bools]
    by (intro sorted_distinct_set_unique) (simp_all add: strict_sorted_iff)
  have "sorted_wrt (<) ?M" by (rule flatnonzero_sorted)
  moreover have "\<forall>x\<in>set ?M. 1 \<le> x" by (auto simp: flatnonzero_def)
  ultimately obtain r where r: "from_iterable ?M = Inr r" "to_list r = ?M" "valid r"
    using from_iterable_sorted by blast
  have tb: "to_bools s (Some n) = Inr bools"
    using assms(2) b(1) by (simp add: to_bools_def)
  show ?thesis
    using tb b(2) mem r M by (auto simp: from_bools_def)
qed


theorem bools_roundtrip_witness:
  "valid \<lparr>ranges = [\<lparr>fr_first = 1, fr_last = 2, fr_frame = - 1\<rparr>,
                    \<lparr>fr_first = 3, fr_last = 4, fr_frame = - 1\<rparr>,
                    \<lparr>fr_first = 7, fr_last = 8, fr_frame = - 1\<rparr>], idx = 0, started = False\<rparr>
   \<and> (0::int) \<le> 7
   \<and> to_bools \<lparr>ranges = [\<lparr>fr_first = 1, fr_last = 2, fr_frame = - 1\<rparr>,
                    \<lparr>fr_first = 3, fr_last = 4, fr_frame = - 1\<rparr>,
                    \<lparr>fr_first = 7, fr_last = 8, fr_frame = - 1\<rparr>], idx = 0, started = False\<rparr>
        (Some 7) = Inr [True, True, True, True, False, False, True]
   \<and> (\<exists>r. from_bools [True, True, True, True, False, False, True] = Inr r
          \<and> to_list r = [1, 2, 3, 4, 7])"
proof -
  let ?s = "\<lparr>ranges = [\<lparr>fr_first = 1, fr_last = 2, fr_frame = - 1\<rparr>,
                    \<lparr>fr_first = 3, fr_last = 4, fr_frame = - 1\<rparr>,
                    \<lparr>fr_first = 7, fr_last = 8, fr_frame = - 1\<rparr>], idx = 0, started = False\<rparr>"
  have v: "valid ?s" by (simp add: valid_def to_range_tuples_def fr_limits_def)
  have l: "to_list ?s = [1, 2, 3, 4, 7, 8]" by code_simp
  have b: "to_bools ?s (Some 7) = Inr [True, True, True, True, False, False, True]"
    by code_simp
  from bools_roundtrip [OF v, of 7] b l
  have "\<exists>r. from_bools [True, True, True, True, False, False, True] = Inr r
          \<and> to_list r = [1, 2, 3, 4, 7]" by auto
  with v b show ?thesis by simp
qed

section \<open>Timestamps to frame numbers\<close>

lemma py_round_nearest:
  "\<bar>x - of_int (py_round x)\<bar> \<le> 1 / 2
   \<and> (\<bar>x - of_int (py_round x)\<bar> = 1 / 2 \<longrightarrow> even (py_round x))"
proof -
  define f where "f = \<lfloor>x\<rfloor>"
  define d where "d = x - of_int f"
  have d: "0 \<le> d" "d < 1" unfolding d_def f_def by linarith+
  have x: "x = of_int f + d" by (simp add: d_def)
  consider "d < 1 / 2" | "1 / 2 < d" | "d = 1 / 2" "even f" | "d = 1 / 2" "odd f"
    by fastforce
  then show ?thesis
  proof cases
    case 1
    then have "py_round x = f" by (simp add: py_round_def Let_def f_def d_def)
    with 1 d x show ?thesis by simp
  next
    case 2
    then have "py_round x = f + 1" by (simp add: py_round_def Let_def f_def d_def)
    with 2 d x show ?thesis by simp
  next
    case 3
    then have "py_round x = f" by (simp add: py_round_def Let_def f_def d_def)
    with 3 d x show ?thesis by simp
  next
    case 4
    then have "py_round x = f + 1" by (simp add: py_round_def Let_def f_def d_def)
    with 4 d x show ?thesis by simp
  qed
qed

text \<open>
  The rounding of the float operations: \<open>ilog2\<close> is the binary exponent, and
  \<open>round_double\<close> rounds to the nearest double.
\<close>

lemma powi_nat: "0 \<le> k \<Longrightarrow> (2::rat) powi k = 2 ^ nat k"
  by (simp add: power_int_def)

lemma powi_le_of_int: "0 \<le> k \<Longrightarrow> 2 ^ nat k \<le> (n::int) \<Longrightarrow> (2::rat) powi k \<le> of_int n"
proof -
  assume k: "0 \<le> k" and "2 ^ nat k \<le> n"
  then have "(of_int (2 ^ nat k) :: rat) \<le> of_int n" by (simp only: of_int_le_iff)
  then show ?thesis by (simp add: powi_nat [OF k])
qed

lemma of_int_less_powi: "0 \<le> k \<Longrightarrow> (n::int) < 2 ^ nat k \<Longrightarrow> of_int n < (2::rat) powi k"
proof -
  assume k: "0 \<le> k" and "n < 2 ^ nat k"
  then have "(of_int n :: rat) < of_int (2 ^ nat k)" by (simp only: of_int_less_iff)
  then show ?thesis by (simp add: powi_nat [OF k])
qed

lemma powi_split: "(2::rat) powi (a + b) = 2 powi a * 2 powi b"
  by (rule power_int_add) simp

lemma ilog2_bounds:
  assumes "x \<noteq> 0"
  shows "2 powi ilog2 x \<le> \<bar>x\<bar> \<and> \<bar>x\<bar> < 2 powi (ilog2 x + 1)"
proof -
  obtain p q where pq: "quotient_of x = (p, q)" by (cases "quotient_of x")
  from quotient_of_denom_pos [OF pq] have q: "0 < q" .
  from quotient_of_div [OF pq] have x: "x = of_int p / of_int q" .
  with assms have p: "0 < \<bar>p\<bar>" by auto
  define bp where "bp = bitlen \<bar>p\<bar>"
  define bq where "bq = bitlen q"
  from bitlen_bounds [OF p] have P: "2 ^ nat (bp - 1) \<le> \<bar>p\<bar>" "\<bar>p\<bar> < 2 ^ nat bp"
    by (simp_all add: bp_def)
  from bitlen_bounds [OF q] have Q: "2 ^ nat (bq - 1) \<le> q" "q < 2 ^ nat bq"
    by (simp_all add: bq_def)
  have bp1: "1 \<le> bp" using P(2) p by (cases "bp \<le> 0") auto
  have bq1: "1 \<le> bq" using Q(2) q by (cases "bq \<le> 0") auto
  have P': "(2::rat) powi (bp - 1) \<le> of_int \<bar>p\<bar>" "of_int \<bar>p\<bar> < (2::rat) powi bp"
    using P bp1 by (simp_all only: powi_le_of_int of_int_less_powi diff_ge_0_iff_ge order_trans [OF zero_le_one])
  have Q': "(2::rat) powi (bq - 1) \<le> of_int q" "of_int q < (2::rat) powi bq"
    using Q bq1 by (simp_all only: powi_le_of_int of_int_less_powi diff_ge_0_iff_ge order_trans [OF zero_le_one])
  have qpos: "(0::rat) < of_int q" using q by simp
  have ax: "\<bar>x\<bar> = of_int \<bar>p\<bar> / of_int q" using q by (simp add: x)
  have lo: "(2::rat) powi (bp - bq - 1) < \<bar>x\<bar>"
  proof -
    have pos: "(0::rat) < 2 powi (bp - bq - 1)" by simp
    have "(2::rat) powi (bp - bq - 1) * of_int q < 2 powi (bp - bq - 1) * 2 powi bq"
      by (rule mult_strict_left_mono [OF Q'(2) pos])
    also have "\<dots> = 2 powi (bp - 1)" using powi_split [of "bp - bq - 1" bq] by simp
    also have "\<dots> \<le> of_int \<bar>p\<bar>" by (rule P'(1))
    finally have "(2::rat) powi (bp - bq - 1) * of_int q < of_int \<bar>p\<bar>" .
    then show ?thesis unfolding ax using qpos by (simp only: pos_less_divide_eq)
  qed
  have hi: "\<bar>x\<bar> < (2::rat) powi (bp - bq + 1)"
  proof -
    have pos: "(0::rat) \<le> 2 powi (bp - bq + 1)" by simp
    have "of_int \<bar>p\<bar> < (2::rat) powi bp" by (rule P'(2))
    also have "\<dots> = 2 powi (bp - bq + 1) * 2 powi (bq - 1)"
      using powi_split [of "bp - bq + 1" "bq - 1"] by simp
    also have "\<dots> \<le> 2 powi (bp - bq + 1) * of_int q"
      by (rule mult_left_mono [OF Q'(1) pos])
    finally have "of_int \<bar>p\<bar> < (2::rat) powi (bp - bq + 1) * of_int q" .
    then show ?thesis unfolding ax using qpos by (simp only: pos_divide_less_eq)
  qed
  have il: "ilog2 x = (if 2 powi (bp - bq) \<le> \<bar>x\<bar> then bp - bq else bp - bq - 1)"
    by (simp add: ilog2_def pq bp_def bq_def Let_def)
  show ?thesis
  proof (cases "(2::rat) powi (bp - bq) \<le> \<bar>x\<bar>")
    case True
    with il hi show ?thesis by simp
  next
    case False
    then have "\<bar>x\<bar> < 2 powi (bp - bq)" by simp
    with False il lo show ?thesis by simp
  qed
qed


text \<open>
  The double that \<open>round_double\<close> gives is a multiple of the last bit with a
  significand of at most 53 bits, and it lies within half a last bit of the exact
  value, the significand being even on a tie.
\<close>

lemma round_double_nearest:
  assumes "x \<noteq> 0" and "round_double x = Fin y"
  shows "\<exists>k. y = of_int k * 2 powi (max (ilog2 x) (- 1022) - 52)
          \<and> \<bar>k\<bar> \<le> 2 ^ 53
          \<and> \<bar>x - y\<bar> \<le> 2 powi (max (ilog2 x) (- 1022) - 52) / 2
          \<and> (\<bar>x - y\<bar> = 2 powi (max (ilog2 x) (- 1022) - 52) / 2 \<longrightarrow> even k)"
proof -
  define e where "e = max (ilog2 x) (- 1022)"
  define ulp :: rat where "ulp = 2 powi (e - 52)"
  define k where "k = py_round (x / ulp)"
  define big where "big = ((2::rat) powi 1024 \<le> \<bar>of_int k * ulp\<bar>)"
  have up: "0 < ulp" by (simp add: ulp_def)
  have rd: "round_double x = (if big then (if 0 < x then PInf else NInf) else Fin (of_int k * ulp))"
    unfolding big_def k_def ulp_def e_def round_double_def Let_def using assms(1)
    by (simp only: if_False)
  from assms(2) have y: "y = of_int k * ulp" unfolding rd by (cases big) (simp_all split: if_splits)
  from py_round_nearest [of "x / ulp"]
  have n: "\<bar>x / ulp - of_int k\<bar> \<le> 1 / 2" "\<bar>x / ulp - of_int k\<bar> = 1 / 2 \<longrightarrow> even k"
    by (simp_all add: k_def)
  have d: "\<bar>x - y\<bar> = \<bar>x / ulp - of_int k\<bar> * ulp"
  proof -
    have "x - y = (x / ulp - of_int k) * ulp" using up by (simp add: y left_diff_distrib)
    then have "\<bar>x - y\<bar> = \<bar>x / ulp - of_int k\<bar> * \<bar>ulp\<bar>" by (simp only: abs_mult)
    then show ?thesis using up by simp
  qed
  have "\<bar>x / ulp - of_int k\<bar> * ulp \<le> 1 / 2 * ulp"
    by (rule mult_right_mono [OF n(1) less_imp_le [OF up]])
  then have b1: "\<bar>x - y\<bar> \<le> ulp / 2" unfolding d by simp
  have b2: "\<bar>x - y\<bar> = ulp / 2 \<longrightarrow> even k"
  proof
    assume "\<bar>x - y\<bar> = ulp / 2"
    then have "\<bar>x / ulp - of_int k\<bar> * ulp = 1 / 2 * ulp" unfolding d by simp
    then have "\<bar>x / ulp - of_int k\<bar> = 1 / 2" using up by (simp only: mult_cancel_right) simp
    with n(2) show "even k" by simp
  qed
  have xb: "\<bar>x\<bar> < 2 powi (e + 1)"
  proof -
    from ilog2_bounds [OF assms(1)] have "\<bar>x\<bar> < 2 powi (ilog2 x + 1)" by simp
    also have "\<dots> \<le> 2 powi (e + 1)" by (rule power_int_increasing) (simp_all add: e_def)
    finally show ?thesis .
  qed
  have ee: "e - 52 + 53 = e + 1" by simp
  have "(2::rat) powi (e + 1) = ulp * 2 powi 53"
    using powi_split [of "e - 52" 53] unfolding ee ulp_def .
  also have "(2::rat) powi 53 = 2 ^ 53" using powi_nat [of 53] by simp
  finally have "\<bar>x\<bar> < 2 ^ 53 * ulp" using xb by (simp add: mult.commute)
  then have "\<bar>x\<bar> / ulp < 2 ^ 53" using up by (simp only: pos_divide_less_eq)
  then have xs: "\<bar>x / ulp\<bar> < 2 ^ 53" using up by simp
  have "\<bar>(of_int k :: rat)\<bar> \<le> \<bar>x / ulp\<bar> + \<bar>x / ulp - of_int k\<bar>" by linarith
  with n(1) xs have "\<bar>(of_int k :: rat)\<bar> < 2 ^ 53 + 1" by linarith
  then have "(of_int \<bar>k\<bar> :: rat) < of_int (2 ^ 53 + 1)" by simp
  then have "\<bar>k\<bar> < 2 ^ 53 + 1" by (simp only: of_int_less_iff)
  then have kb: "\<bar>k\<bar> \<le> 2 ^ 53" by simp
  have "y = of_int k * ulp \<and> \<bar>k\<bar> \<le> 2 ^ 53 \<and> \<bar>x - y\<bar> \<le> ulp / 2
      \<and> (\<bar>x - y\<bar> = ulp / 2 \<longrightarrow> even k)"
    using y kb b1 b2 by (intro conjI)
  then show ?thesis unfolding ulp_def e_def by (rule exI)
qed

lemma frame_number_scenario:
  "fdiv (Fin (9 / 2)) (Fin 9) = Inr (Fin (1 / 2))"
  "float_of_int 9 = Inr (Fin 9)"
  "fmul (Fin (1 / 2)) (Fin 9) = Fin (9 / 2)"
  "py_round (9 / 2) = 4"
  by code_simp+

lemma frame_number_inexact:
  "fdiv (Fin 7) (Fin 10) = Inr (Fin (3152519739159347 / 4503599627370496))"
  "float_of_int 45 = Inr (Fin 45)"
  "fmul (Fin (3152519739159347 / 4503599627370496)) (Fin 45)
     = Fin (8866461766385663 / 281474976710656)"
  "py_round (8866461766385663 / 281474976710656) = 31"
  by code_simp+

text \<open>
  C2, as the code has it. \<open>timestamp_to_frame_number(4.5, 9.0, 10)\<close> is \<open>5\<close>:
  \<open>alpha * 9 = 4.5\<close> is a tie, and Python's \<open>round\<close> sends a tie to the even
  neighbour \<open>4\<close>. In general the function returns
  \<open>1 + round((timestamp / duration) * (total_frame_count - 1))\<close> where the division
  and the multiplication are those of floats, each rounded to the nearest double, and
  \<open>round\<close> gives an integer nearest to the finite product and, on a tie, the even
  one. The intermediate roundings count: at \<open>(7, 10, 46)\<close> the product is the double
  just below \<open>31.5\<close> and the result is \<open>32\<close>.
\<close>

theorem timestamp_to_frame_number_value:
  "timestamp_to_frame_number py_float (Seconds (Fin (9 / 2))) (Fin 9) 10 = Inr 5
   \<and> timestamp_to_frame_number py_float (Seconds (Fin 7)) (Fin 10) 46 = Inr 32
   \<and> (\<forall>alpha c p.
         fdiv t duration = Inr alpha \<longrightarrow> float_of_int (n - 1) = Inr c \<longrightarrow> fmul alpha c = Fin p \<longrightarrow>
           (\<exists>k. timestamp_to_frame_number py_float (Seconds t) duration n = Inr (1 + k)
              \<and> k = py_round p
              \<and> \<bar>p - of_int k\<bar> \<le> 1 / 2
              \<and> (\<bar>p - of_int k\<bar> = 1 / 2 \<longrightarrow> even k)))"
proof (intro conjI allI impI)
  show "timestamp_to_frame_number py_float (Seconds (Fin (9 / 2))) (Fin 9) 10 = Inr 5"
    by (simp add: timestamp_to_frame_number_def frame_number_scenario round_float_def)
next
  show "timestamp_to_frame_number py_float (Seconds (Fin 7)) (Fin 10) 46 = Inr 32"
    by (simp add: timestamp_to_frame_number_def frame_number_inexact round_float_def)
next
  fix alpha c p
  assume "fdiv t duration = Inr alpha" "float_of_int (n - 1) = Inr c" "fmul alpha c = Fin p"
  then have "timestamp_to_frame_number py_float (Seconds t) duration n = Inr (1 + py_round p)"
    by (simp add: timestamp_to_frame_number_def round_float_def)
  with py_round_nearest [of p]
  show "\<exists>k. timestamp_to_frame_number py_float (Seconds t) duration n = Inr (1 + k)
              \<and> k = py_round p
              \<and> \<bar>p - of_int k\<bar> \<le> 1 / 2
              \<and> (\<bar>p - of_int k\<bar> = 1 / 2 \<longrightarrow> even k)"
    by simp
qed

theorem timestamp_to_frame_number_value_witness:
  "fdiv (Fin 5) (Fin 9) = Inr (Fin (2501999792983609 / 4503599627370496))
   \<and> float_of_int 9 = Inr (Fin 9)
   \<and> fmul (Fin (2501999792983609 / 4503599627370496)) (Fin 9) = Fin 5
   \<and> timestamp_to_frame_number (\<lambda>s. Inl ValueError) (Seconds (Fin 5)) (Fin 9) 10 = Inr 6"
proof -
  have a: "fdiv (Fin 5) (Fin 9) = Inr (Fin (2501999792983609 / 4503599627370496))"
    by code_simp
  have c: "float_of_int 9 = Inr (Fin 9)"
    by code_simp
  have p: "fmul (Fin (2501999792983609 / 4503599627370496)) (Fin 9) = Fin 5"
    by code_simp
  have r: "py_round 5 = 5"
    by code_simp
  have c': "float_of_int (10 - 1) = Inr (Fin 9)"
    using c by simp
  from timestamp_to_frame_number_value
    [of "\<lambda>s. Inl ValueError" "Fin 5" "Fin 9" 10, THEN conjunct2, THEN conjunct2, rule_format,
      OF a c' p]
  have "timestamp_to_frame_number (\<lambda>s. Inl ValueError) (Seconds (Fin 5)) (Fin 9) 10 = Inr 6"
    by (auto simp: r)
  with a c p show ?thesis by (intro conjI)
qed

text \<open>The value \<open>6\<close> of the specification is not what the function returns.\<close>

theorem timestamp_to_frame_number_counterexample:
  "timestamp_to_frame_number (\<lambda>s. Inl ValueError) (Seconds (Fin (9 / 2))) (Fin 9) 10 \<noteq> Inr 6"
  by (simp add: timestamp_to_frame_number_def frame_number_scenario round_float_def)

section \<open>Object.support\<close>

text \<open>
  C5. The support is the explicit support when one was given; otherwise it is
  \<open>from_iterable\<close> of the keys of \<open>frames\<close>. It does not depend on
  \<open>child_objects\<close>, and when it is derived from distinct frame numbers \<open>\<ge> 1\<close> it
  is a valid interval set whose frames are exactly those keys, sorted: no frame of a
  child object is in it.
\<close>

theorem support_value:
  "(\<forall>s. obj_support self = Some s \<longrightarrow> support self = Inr s)
   \<and> (obj_support self = None \<longrightarrow> support self = from_iterable (map fst (obj_frames self)))
   \<and> support (self\<lparr>obj_child_objects := c\<rparr>) = support self
   \<and> (obj_support self = None \<and> distinct (map fst (obj_frames self))
        \<and> (\<forall>k\<in>set (map fst (obj_frames self)). 1 \<le> k)
      \<longrightarrow> (\<exists>s. support self = Inr s \<and> valid s
              \<and> to_list s = sort (map fst (obj_frames self))))"
proof -
  have "\<exists>s. support self = Inr s \<and> valid s \<and> to_list s = sort (map fst (obj_frames self))"
    if "obj_support self = None" "distinct (map fst (obj_frames self))"
      "\<forall>k\<in>set (map fst (obj_frames self)). 1 \<le> k"
    using from_iterable_distinct [OF that(2,3)] that(1) by (auto simp: support_def)
  then show ?thesis by (auto simp: support_def split: option.splits)
qed

theorem support_value_witness:
  "obj_support example_object = None \<and> distinct (map fst (obj_frames example_object))
   \<and> (\<exists>s. support example_object = Inr s \<and> to_list s = [3, 4, 7]
          \<and> to_range_tuples s = [(3, 4), (7, 7)])
   \<and> support (example_object\<lparr>obj_child_objects := []\<rparr>) = support example_object
   \<and> support (example_object\<lparr>obj_support := Some FrameRanges_empty\<rparr>) = Inr FrameRanges_empty"
proof -
  have e: "support example_object =
      Inr \<lparr>ranges = [\<lparr>fr_first = 3, fr_last = 4, fr_frame = - 1\<rparr>,
                     \<lparr>fr_first = 7, fr_last = 7, fr_frame = - 1\<rparr>], idx = 0, started = False\<rparr>"
    by code_simp
  have l: "to_list \<lparr>ranges = [\<lparr>fr_first = 3, fr_last = 4, fr_frame = - 1\<rparr>,
                     \<lparr>fr_first = 7, fr_last = 7, fr_frame = - 1\<rparr>], idx = 0, started = False\<rparr>
      = [3, 4, 7]"
    by code_simp
  from support_value [of example_object "[]"]
    support_value [of "example_object\<lparr>obj_support := Some FrameRanges_empty\<rparr>"] e l
  show ?thesis
    by (simp add: example_object_def to_range_tuples_def fr_limits_def)
qed

section \<open>Object.add_detection\<close>

lemma add_detection_none:
  "do_frame_number obj = None \<Longrightarrow> add_detection self obj None = Inl ValueError"
  by (simp add: add_detection_def)

lemma add_detection_explicit:
  "add_detection self obj (Some n) =
     Inr (self\<lparr>obj_frames :=
                AList.update n (obj\<lparr>do_frame_number := Some n, do_label := None\<rparr>) (obj_frames self)\<rparr>,
          obj\<lparr>do_frame_number := Some n, do_label := None\<rparr>)"
  by (simp add: add_detection_def Let_def)

lemma add_detection_own:
  assumes "do_frame_number obj = Some k"
  shows "add_detection self obj None =
     Inr (self\<lparr>obj_frames :=
                AList.update k (obj\<lparr>do_frame_number := Some k, do_label := None\<rparr>) (obj_frames self)\<rparr>,
          obj\<lparr>do_frame_number := Some k, do_label := None\<rparr>)"
proof -
  have "obj\<lparr>do_frame_number := do_frame_number obj\<rparr> = obj" by simp
  then have eq: "obj\<lparr>do_frame_number := Some k\<rparr> = obj" by (simp only: assms)
  show ?thesis unfolding eq using assms by (simp add: add_detection_def Let_def)
qed

lemma stored_detection:
  assumes "r = Inr (self\<lparr>obj_frames := AList.update k d (obj_frames self)\<rparr>, d)"
    and "r = Inr (self', obj')"
  shows "map_of (obj_frames self') k = Some obj'
     \<and> (\<forall>j. j \<noteq> k \<longrightarrow> map_of (obj_frames self') j = map_of (obj_frames self) j)
     \<and> self' = self\<lparr>obj_frames := obj_frames self'\<rparr>"
proof -
  from assms have s: "self' = self\<lparr>obj_frames := AList.update k d (obj_frames self)\<rparr>"
    and d: "obj' = d" by simp_all
  show ?thesis unfolding s d by (simp add: update_conv')
qed

text \<open>
  C6. \<open>add_detection\<close> fails, with \<open>ValueError\<close>, exactly when neither an
  explicit frame number nor the detection's own is present, and it fails in no other
  way. On success the detection is stored under the explicit frame number when given,
  else under its own; the stored detection carries that frame number and the label
  \<open>None\<close>; no other key of \<open>frames\<close> and no other field of the object changes.
\<close>

theorem add_detection_cases:
  "(add_detection self obj frame_number = Inl ValueError
      \<longleftrightarrow> frame_number = None \<and> do_frame_number obj = None)
   \<and> (\<forall>e. add_detection self obj frame_number = Inl e \<longrightarrow> e = ValueError)
   \<and> (\<forall>self' obj'. add_detection self obj frame_number = Inr (self', obj') \<longrightarrow>
        (\<exists>k. (case frame_number of Some n \<Rightarrow> k = n | None \<Rightarrow> do_frame_number obj = Some k)
           \<and> obj' = obj\<lparr>do_frame_number := Some k, do_label := None\<rparr>
           \<and> do_label obj' = None
           \<and> map_of (obj_frames self') k = Some obj'
           \<and> (\<forall>j. j \<noteq> k \<longrightarrow> map_of (obj_frames self') j = map_of (obj_frames self) j)
           \<and> self' = self\<lparr>obj_frames := obj_frames self'\<rparr>))"
proof (cases frame_number)
  case (Some n)
  note e = add_detection_explicit [of self obj n]
  have "\<exists>k. (case frame_number of Some n \<Rightarrow> k = n | None \<Rightarrow> do_frame_number obj = Some k)
           \<and> obj' = obj\<lparr>do_frame_number := Some k, do_label := None\<rparr>
           \<and> do_label obj' = None
           \<and> map_of (obj_frames self') k = Some obj'
           \<and> (\<forall>j. j \<noteq> k \<longrightarrow> map_of (obj_frames self') j = map_of (obj_frames self) j)
           \<and> self' = self\<lparr>obj_frames := obj_frames self'\<rparr>"
    if r: "add_detection self obj frame_number = Inr (self', obj')" for self' obj'
  proof -
    from r have r': "add_detection self obj (Some n) = Inr (self', obj')" by (simp only: Some)
    from e r' have o: "obj' = obj\<lparr>do_frame_number := Some n, do_label := None\<rparr>" by simp
    from stored_detection [OF e r'] o Some show ?thesis by simp
  qed
  note A = this
  have B: "add_detection self obj frame_number \<noteq> Inl e" for e
    using e by (simp add: Some)
  show ?thesis
  proof (intro conjI allI impI)
    show "(add_detection self obj frame_number = Inl ValueError)
        = (frame_number = None \<and> do_frame_number obj = None)"
      using B Some by simp
  next
    fix e assume "add_detection self obj frame_number = Inl e"
    with B [of e] show "e = ValueError" by simp
  next
    fix self' obj' assume "add_detection self obj frame_number = Inr (self', obj')"
    then show "\<exists>k. (case frame_number of Some n \<Rightarrow> k = n | None \<Rightarrow> do_frame_number obj = Some k)
           \<and> obj' = obj\<lparr>do_frame_number := Some k, do_label := None\<rparr>
           \<and> do_label obj' = None
           \<and> map_of (obj_frames self') k = Some obj'
           \<and> (\<forall>j. j \<noteq> k \<longrightarrow> map_of (obj_frames self') j = map_of (obj_frames self) j)
           \<and> self' = self\<lparr>obj_frames := obj_frames self'\<rparr>"
      by (rule A)
  qed
next
  case None
  show ?thesis
  proof (cases "do_frame_number obj")
    case n: None
    from add_detection_none [OF n, of self] None n show ?thesis by simp
  next
    case (Some k)
    note e = add_detection_own [OF Some, of self]
    have "\<exists>k. (case frame_number of Some n \<Rightarrow> k = n | None \<Rightarrow> do_frame_number obj = Some k)
           \<and> obj' = obj\<lparr>do_frame_number := Some k, do_label := None\<rparr>
           \<and> do_label obj' = None
           \<and> map_of (obj_frames self') k = Some obj'
           \<and> (\<forall>j. j \<noteq> k \<longrightarrow> map_of (obj_frames self') j = map_of (obj_frames self) j)
           \<and> self' = self\<lparr>obj_frames := obj_frames self'\<rparr>"
      if r: "add_detection self obj frame_number = Inr (self', obj')" for self' obj'
    proof -
      from r have r': "add_detection self obj None = Inr (self', obj')" by (simp only: None)
      from e r' have o: "obj' = obj\<lparr>do_frame_number := Some k, do_label := None\<rparr>" by simp
      from stored_detection [OF e r'] o Some None show ?thesis by simp
    qed
    note A = this
    have B: "add_detection self obj frame_number \<noteq> Inl e" for e
      using e by (simp add: None)
    show ?thesis
    proof (intro conjI allI impI)
      show "(add_detection self obj frame_number = Inl ValueError)
          = (frame_number = None \<and> do_frame_number obj = None)"
        using B Some None by simp
    next
      fix e assume "add_detection self obj frame_number = Inl e"
      with B [of e] show "e = ValueError" by simp
    next
      fix self' obj' assume "add_detection self obj frame_number = Inr (self', obj')"
      then show "\<exists>k. (case frame_number of Some n \<Rightarrow> k = n | None \<Rightarrow> do_frame_number obj = Some k)
             \<and> obj' = obj\<lparr>do_frame_number := Some k, do_label := None\<rparr>
             \<and> do_label obj' = None
             \<and> map_of (obj_frames self') k = Some obj'
             \<and> (\<forall>j. j \<noteq> k \<longrightarrow> map_of (obj_frames self') j = map_of (obj_frames self) j)
             \<and> self' = self\<lparr>obj_frames := obj_frames self'\<rparr>"
        by (rule A)
    qed
  qed
qed

theorem add_detection_cases_witness:
  "add_detection example_object example_detection None = Inl ValueError
   \<and> (\<exists>self'. add_detection example_object (example_detection\<lparr>do_label := Some ''car''\<rparr>) (Some 9)
          = Inr (self', example_detection\<lparr>do_frame_number := Some 9\<rparr>)
        \<and> map_of (obj_frames self') 9 = Some (example_detection\<lparr>do_frame_number := Some 9\<rparr>))"
proof -
  let ?d = "example_detection\<lparr>do_label := Some ''car''\<rparr>"
  have n: "do_frame_number example_detection = None"
    by (simp add: example_detection_def)
  have l: "?d\<lparr>do_frame_number := Some 9, do_label := None\<rparr>
      = example_detection\<lparr>do_frame_number := Some 9\<rparr>"
    by (simp add: example_detection_def)
  obtain self' where s: "add_detection example_object ?d (Some 9)
      = Inr (self', example_detection\<lparr>do_frame_number := Some 9\<rparr>)"
    using add_detection_explicit [of example_object ?d 9] by (simp only: l)
  from add_detection_cases [of example_object ?d "Some 9"]
  have "\<forall>self' obj'. add_detection example_object ?d (Some 9) = Inr (self', obj') \<longrightarrow>
        (\<exists>k. (case Some 9 of Some n \<Rightarrow> k = n | None \<Rightarrow> do_frame_number ?d = Some k)
           \<and> obj' = ?d\<lparr>do_frame_number := Some k, do_label := None\<rparr>
           \<and> do_label obj' = None
           \<and> map_of (obj_frames self') k = Some obj'
           \<and> (\<forall>j. j \<noteq> k \<longrightarrow> map_of (obj_frames self') j = map_of (obj_frames example_object) j)
           \<and> self' = example_object\<lparr>obj_frames := obj_frames self'\<rparr>)"
    by (rule conjunct2 [THEN conjunct2])
  from this [rule_format, OF s] obtain k where
    "(case Some 9 of Some n \<Rightarrow> k = n | None \<Rightarrow> do_frame_number ?d = Some k)"
    "map_of (obj_frames self') k = Some (example_detection\<lparr>do_frame_number := Some 9\<rparr>)"
    by blast
  then have "map_of (obj_frames self') 9 = Some (example_detection\<lparr>do_frame_number := Some 9\<rparr>)"
    by simp
  moreover from add_detection_cases [of example_object example_detection None] n
  have "add_detection example_object example_detection None = Inl ValueError" by blast
  ultimately show ?thesis using s by blast
qed

section \<open>ObjectContainer.iter_detected_objects\<close>

text \<open>
  C10. \<open>iter_detected_objects\<close> yields the entries of \<open>child_objects\<close> (uuid
  strings) of each object that matches the label, in container order; the \<open>frames\<close>
  of the objects have no influence on it. \<open>iter_detected_object_attrs\<close> reads
  \<open>attrs\<close> from those strings: it yields nothing when there is no such uuid and
  raises \<open>AttributeError\<close> otherwise.
\<close>

theorem iter_detected_objects_yields_uuids:
  "iter_detected_objects self label
     = concat (map obj_child_objects
         (filter (\<lambda>obj. label = Some ''*'' \<or> obj_label obj = label) self))
   \<and> iter_detected_objects (map (\<lambda>obj. obj\<lparr>obj_frames := g obj\<rparr>) self) label
     = iter_detected_objects self label
   \<and> iter_detected_object_attrs iter_attrs self label
     = (if iter_detected_objects self label = [] then Inr [] else Inl AttributeError)"
proof -
  have 1: "iter_detected_objects self label
     = concat (map obj_child_objects
         (filter (\<lambda>obj. label = Some ''*'' \<or> obj_label obj = label) self))"
    by (simp add: iter_detected_objects_def iter_objects_def)
  have 2: "iter_detected_objects (map (\<lambda>obj. obj\<lparr>obj_frames := g obj\<rparr>) self) label
     = iter_detected_objects self label"
    by (induction self) (auto simp: iter_detected_objects_def iter_objects_def)
  have 3: "detected_object_attrs_loop iter_attrs us = (if us = [] then Inr [] else Inl AttributeError)"
    for us by (cases us) (simp_all add: str_attrs_def)
  show ?thesis
    using 1 2 3 by (simp add: iter_detected_object_attrs_def)
qed

theorem iter_detected_objects_yields_uuids_witness:
  "iter_detected_objects [example_object] (Some ''car'') = [''child'']
   \<and> iter_detected_objects [example_object\<lparr>obj_frames := []\<rparr>] (Some ''car'') = [''child'']
   \<and> iter_detected_object_attrs (\<lambda>attrs. attrs) [example_object] (Some ''*'') = Inl AttributeError"
  using iter_detected_objects_yields_uuids [of "[example_object]" "Some ''car''" "\<lambda>obj. []" "\<lambda>attrs. attrs"]
    iter_detected_objects_yields_uuids [of "[example_object]" "Some ''*''" "\<lambda>obj. []" "\<lambda>attrs. attrs"]
  by (simp add: example_object_def)

section \<open>ObjectSchema.build_active_schema\<close>

lemma os_add_detected_object_fails:
  "\<exists>e. os_add_detected_object ops self dobj v = Inl e"
  by (simp add: os_add_detected_object_def do_frames_def split: sum.splits)

lemma os_add_detections_fails:
  "ds \<noteq> [] \<Longrightarrow> \<exists>e. os_add_detections ops self ds = Inl e"
  using os_add_detected_object_fails [of ops self "hd ds" False]
  by (cases ds) auto

text \<open>
  C1 fails on the code. \<open>build_active_schema\<close> raises on every
  \<^verbatim>\<open>DetectedObject\<close>, and on every \<^verbatim>\<open>Object\<close> that has a detection, whatever the
  attribute schemas do: \<^verbatim>\<open>_add_detected_object\<close> reads \<^verbatim>\<open>dobj.frames\<close>, which a
  \<^verbatim>\<open>DetectedObject\<close> does not have. So \<^verbatim>\<open>build_active_schema(obj).validate(obj)\<close>
  fails for these objects.
\<close>

theorem build_active_schema_fails:
  "(\<exists>e. build_active_schema ops (DObj dobj) objects = Inl e)
   \<and> (\<exists>e. build_and_validate ops (DObj dobj) = Inl e)
   \<and> (obj_frames obj \<noteq> [] \<longrightarrow> (\<exists>e. build_and_validate ops (Obj obj) = Inl e))"
proof -
  have d: "\<exists>e. build_active_schema ops (DObj dobj) objs = Inl e" for objs
    using os_add_detected_object_fails
      [of ops "new_ObjectSchema ops (labels_label (DObj dobj))" dobj True]
    by (auto simp: build_active_schema_def os_add_object_def)
  have o: "\<exists>e. build_active_schema ops (Obj obj) [] = Inl e" if "obj_frames obj \<noteq> []"
  proof -
    have "iter_detections obj \<noteq> []" using that by (simp add: iter_detections_def)
    from os_add_detections_fails [OF this]
    have "\<exists>e. os_add_Object ops s obj = Inl e" for s
      by (auto simp: os_add_Object_def split: sum.splits)
    from this [of "new_ObjectSchema ops (labels_label (Obj obj))"] show ?thesis
      by (auto simp: build_active_schema_def os_add_object_def)
  qed
  from d [of "[]"] have "\<exists>e. build_and_validate ops (DObj dobj) = Inl e"
    by (auto simp: build_and_validate_def)
  moreover from o have "obj_frames obj \<noteq> [] \<longrightarrow> (\<exists>e. build_and_validate ops (Obj obj) = Inl e)"
    by (auto simp: build_and_validate_def)
  ultimately show ?thesis using d by blast
qed

theorem build_active_schema_fails_witness:
  "build_and_validate set_ops (DObj (example_detection\<lparr>do_label := Some ''car''\<rparr>))
     = Inl AttributeError
   \<and> obj_frames example_object \<noteq> []
   \<and> build_and_validate set_ops (Obj example_object) = Inl AttributeError
   \<and> build_and_validate set_ops (Obj (example_object\<lparr>obj_frames := []\<rparr>)) = Inr ()"
proof -
  have 1: "build_and_validate set_ops (DObj (example_detection\<lparr>do_label := Some ''car''\<rparr>))
     = Inl AttributeError"
    by (simp add: build_and_validate_def build_active_schema_def os_add_object_def
        os_add_detected_object_def do_frames_def os_validate_label_def new_ObjectSchema_def
        labels_label_def os_add_object_attributes_def set_ops_def)
  have 2: "build_and_validate set_ops (Obj example_object) = Inl e \<Longrightarrow> e = AttributeError" for e
    by (simp add: build_and_validate_def build_active_schema_def os_add_object_def
        os_add_Object_def os_add_frames_dict_def os_validate_label_def new_ObjectSchema_def
        labels_label_def os_add_object_attributes_def set_ops_def example_object_def)
  have 3: "build_and_validate set_ops (Obj (example_object\<lparr>obj_frames := []\<rparr>)) = Inr ()"
    by (simp add: build_and_validate_def build_active_schema_def os_add_object_def
        os_add_Object_def os_add_frames_dict_def os_validate_label_def new_ObjectSchema_def
        labels_label_def os_add_object_attributes_def set_ops_def example_object_def
        iter_detections_def os_validate_def os_validate_Object_def
        os_validate_object_attributes_def)
  from build_active_schema_fails [of set_ops "example_detection" "[]" example_object] 2
  have "build_and_validate set_ops (Obj example_object) = Inl AttributeError"
    by (auto simp: example_object_def)
  with 1 3 show ?thesis by (simp add: example_object_def)
qed

section \<open>ObjectContainerSchema.merge_schema\<close>

lemma wf_cs_map_of:
  "wf_cs c \<Longrightarrow> map_of c k = Some s \<Longrightarrow> os_label s = k \<and> wf_os s"
  by (induction c) (auto split: if_splits)

lemma wf_cs_update:
  "wf_cs c \<Longrightarrow> os_label v = k \<Longrightarrow> wf_os v \<Longrightarrow> wf_cs (AList.update k v c)"
  by (induction c) (auto simp: update_conv')

lemma wf_new: "wf_os (new_ObjectSchema ops k) \<and> os_label (new_ObjectSchema ops k) = k"
  by (simp add: new_ObjectSchema_def)

lemma map_of_ensure:
  "map_of (ensure_has_object_label ops a k) = (map_of a)(k \<mapsto> entry_or_new ops a k)"
  by (auto simp: ensure_has_object_label_def has_object_label_def entry_or_new_def update_conv'
      fun_upd_idem_iff)

lemma wf_ensure: "wf_cs a \<Longrightarrow> wf_cs (ensure_has_object_label ops a k)"
  by (simp add: ensure_has_object_label_def wf_cs_update wf_new)

lemma wf_entry_or_new:
  "wf_cs a \<Longrightarrow> wf_os (entry_or_new ops a k) \<and> os_label (entry_or_new ops a k) = k"
  by (auto simp: entry_or_new_def wf_new dest: wf_cs_map_of split: option.splits)

lemma cs_contents_apply: "cs_contents c k = map_option os_contents (map_of c k)"
  by (induction c) (auto simp: cs_contents_def)

lemma os_contents_eq:
  "os_contents x = Contents (os_label x) (os_attrs x) (os_frames x) (cs_contents (os_child_objects x))"
  by (cases x) (simp add: cs_contents_def)

lemma wf_os_children: "wf_os x \<Longrightarrow> wf_cs (os_child_objects x)"
  by (cases x) simp

lemma child_in_set: "map_of c k = Some y \<Longrightarrow> (k, y) \<in> set c \<and> y \<in> Basic_BNFs.snds (k, y)"
  by (auto dest: map_of_SomeD)

text \<open>
  What a merge that returns has done: the labels were equal, the attribute schemas
  and the children were merged, and under each label of the other container schema
  lies the merge of the entry (or of a fresh object schema) with the other's.
\<close>

lemma merge_structure:
  fixes ops :: "'a acs_ops"
  shows "wf_os self \<longrightarrow> wf_os other \<longrightarrow>
           (\<forall>r. os_merge_schema ops self other = Inr r \<longrightarrow>
              os_label other = os_label self \<and> wf_os r \<and> os_label r = os_label self
              \<and> acs_merge_schema ops (os_attrs self) (os_attrs other) = Inr (os_attrs r)
              \<and> acs_merge_schema ops (os_frames self) (os_frames other) = Inr (os_frames r)
              \<and> ocs_merge_schema ops (os_child_objects self) (os_child_objects other)
                  = Inr (os_child_objects r))"
    and "wf_cs cself \<longrightarrow> wf_cs b \<longrightarrow>
           (\<forall>r. ocs_merge_schema ops cself b = Inr r \<longrightarrow>
              wf_cs r
              \<and> (\<forall>k. case map_of b k of
                       None \<Rightarrow> map_of r k = map_of cself k
                     | Some y \<Rightarrow>
                         (\<exists>mg. os_merge_schema ops (entry_or_new ops cself k) y = Inr mg
                            \<and> map_of r k = Some mg)))"
proof (induction ops self other and ops cself b rule: os_merge_schema_ocs_merge_schema.induct)
  case (1 ops self l a f c)
  show ?case
  proof (intro impI allI)
    fix r
    assume w: "wf_os self" "wf_os (ObjectSchema l a f c)"
      and m: "os_merge_schema ops self (ObjectSchema l a f c) = Inr r"
    from m obtain a' f' c' where vl: "os_validate_label self l = Inr ()"
      and a: "acs_merge_schema ops (os_attrs self) a = Inr a'"
      and f: "acs_merge_schema ops (os_frames self) f = Inr f'"
      and c: "ocs_merge_schema ops (os_child_objects self) c = Inr c'"
      and r: "r = ObjectSchema (os_label self) a' f' c'"
      by (auto split: sum.splits)
    from vl have l: "l = os_label self"
      by (simp add: os_validate_label_def split: if_splits)
    have wc: "wf_cs (os_child_objects self)" using w(1) by (rule wf_os_children)
    from 1 [OF vl a f] wc w(2) c have "wf_cs c'" by simp
    with l a f c r
    show "os_label (ObjectSchema l a f c) = os_label self \<and> wf_os r \<and> os_label r = os_label self
        \<and> acs_merge_schema ops (os_attrs self) (os_attrs (ObjectSchema l a f c)) = Inr (os_attrs r)
        \<and> acs_merge_schema ops (os_frames self) (os_frames (ObjectSchema l a f c)) = Inr (os_frames r)
        \<and> ocs_merge_schema ops (os_child_objects self) (os_child_objects (ObjectSchema l a f c))
            = Inr (os_child_objects r)"
      by simp
  qed
next
  case (2 ops self)
  then show ?case by simp
next
  case (3 ops self label obj_schema rest)
  show ?case
  proof (intro impI allI)
    fix r
    assume w: "wf_cs self" "wf_cs ((label, obj_schema) # rest)"
      and m: "ocs_merge_schema ops self ((label, obj_schema) # rest) = Inr r"
    let ?s1 = "ensure_has_object_label ops self label"
    let ?cur = "entry_or_new ops self label"
    have cur: "map_of ?s1 label = Some ?cur" by (simp add: map_of_ensure)
    have wcur: "wf_os ?cur" "os_label ?cur = label" using wf_entry_or_new [OF w(1)] by auto
    from w(2) have wo: "wf_os obj_schema" "os_label obj_schema = label"
      "map_of rest label = None" "wf_cs rest" by auto
    from m cur obtain mg where mg: "os_merge_schema ops ?cur obj_schema = Inr mg"
      and r: "ocs_merge_schema ops (AList.update label mg ?s1) rest = Inr r"
      by (auto simp: Let_def split: sum.splits)
    let ?s2 = "AList.update label mg ?s1"
    from "3.IH"(1) [OF refl cur] wcur wo mg have wmg: "wf_os mg" "os_label mg = label" by auto
    have w2: "wf_cs ?s2" using wf_ensure [OF w(1)] wmg by (simp add: wf_cs_update)
    from "3.IH"(2) [OF refl cur mg] w2 wo(4) r
    have wr: "wf_cs r"
      and lk: "\<forall>k. case map_of rest k of
                 None \<Rightarrow> map_of r k = map_of ?s2 k
               | Some y \<Rightarrow>
                   (\<exists>mg'. os_merge_schema ops (entry_or_new ops ?s2 k) y = Inr mg'
                      \<and> map_of r k = Some mg')" by auto
    have "case map_of ((label, obj_schema) # rest) k of
            None \<Rightarrow> map_of r k = map_of self k
          | Some y \<Rightarrow>
              (\<exists>mg'. os_merge_schema ops (entry_or_new ops self k) y = Inr mg'
                 \<and> map_of r k = Some mg')" for k
    proof (cases "k = label")
      case True
      from lk have "case map_of rest label of
                 None \<Rightarrow> map_of r label = map_of ?s2 label
               | Some y \<Rightarrow>
                   (\<exists>mg'. os_merge_schema ops (entry_or_new ops ?s2 label) y = Inr mg'
                      \<and> map_of r label = Some mg')" by (rule spec)
      with wo(3) have "map_of r label = Some mg" by (simp add: update_conv')
      with True mg show ?thesis by simp
    next
      case False
      then have e1: "map_of ?s2 k = map_of self k"
        by (simp add: update_conv' map_of_ensure)
      then have e2: "entry_or_new ops ?s2 k = entry_or_new ops self k"
        by (simp add: entry_or_new_def)
      from lk have "case map_of rest k of
                 None \<Rightarrow> map_of r k = map_of ?s2 k
               | Some y \<Rightarrow>
                   (\<exists>mg'. os_merge_schema ops (entry_or_new ops ?s2 k) y = Inr mg'
                      \<and> map_of r k = Some mg')" by (rule spec)
      then show ?thesis unfolding e1 e2 using False by simp
    qed
    with wr show "wf_cs r
        \<and> (\<forall>k. case map_of ((label, obj_schema) # rest) k of
                 None \<Rightarrow> map_of r k = map_of self k
               | Some y \<Rightarrow>
                   (\<exists>mg. os_merge_schema ops (entry_or_new ops self k) y = Inr mg
                      \<and> map_of r k = Some mg))"
      by blast
  qed
qed

lemma os_merge_dest:
  assumes "wf_os x" and "wf_os y" and "os_merge_schema ops x y = Inr r"
  shows "os_label y = os_label x" and "wf_os r" and "os_label r = os_label x"
    and "acs_merge_schema ops (os_attrs x) (os_attrs y) = Inr (os_attrs r)"
    and "acs_merge_schema ops (os_frames x) (os_frames y) = Inr (os_frames r)"
    and "ocs_merge_schema ops (os_child_objects x) (os_child_objects y) = Inr (os_child_objects r)"
  using merge_structure(1) [of x y ops] assms by blast+

lemma ocs_merge_wf:
  assumes "wf_cs a" and "wf_cs b" and "ocs_merge_schema ops a b = Inr r"
  shows "wf_cs r"
  using merge_structure(2) [of a b ops] assms by blast

lemma ocs_merge_lookup:
  assumes "wf_cs a" and "wf_cs b" and "ocs_merge_schema ops a b = Inr r"
  shows "case map_of b k of
           None \<Rightarrow> map_of r k = map_of a k
         | Some y \<Rightarrow>
             (\<exists>mg. os_merge_schema ops (entry_or_new ops a k) y = Inr mg \<and> map_of r k = Some mg)"
  using merge_structure(2) [of a b ops] assms by blast

lemma ocs_merge_None:
  assumes "wf_cs a" and "wf_cs b" and "ocs_merge_schema ops a b = Inr r" and "map_of b k = None"
  shows "map_of r k = map_of a k"
  using ocs_merge_lookup [OF assms(1-3), of k] assms(4) by simp

lemma ocs_merge_Some:
  assumes "wf_cs a" and "wf_cs b" and "ocs_merge_schema ops a b = Inr r" and "map_of b k = Some y"
  obtains mg where "os_merge_schema ops (entry_or_new ops a k) y = Inr mg" and "map_of r k = Some mg"
  using ocs_merge_lookup [OF assms(1-3), of k] assms(4) by auto

text \<open>When the merges return.\<close>

lemma os_merge_intro:
  assumes "os_label y = os_label x"
    and "acs_merge_schema ops (os_attrs x) (os_attrs y) = Inr a'"
    and "acs_merge_schema ops (os_frames x) (os_frames y) = Inr f'"
    and "ocs_merge_schema ops (os_child_objects x) (os_child_objects y) = Inr c'"
  shows "os_merge_schema ops x y = Inr (ObjectSchema (os_label x) a' f' c')"
  using assms by (cases y) (simp add: os_validate_label_def)

lemma ocs_merge_returns:
  fixes ops :: "'a acs_ops"
  shows "wf_cs a \<Longrightarrow> wf_cs b \<Longrightarrow>
    (\<And>k y. map_of b k = Some y \<Longrightarrow> \<exists>mg. os_merge_schema ops (entry_or_new ops a k) y = Inr mg) \<Longrightarrow>
    \<exists>r. ocs_merge_schema ops a b = Inr r"
proof (induction b arbitrary: a)
  case Nil
  then show ?case by simp
next
  case (Cons e rest)
  obtain label obj where e: "e = (label, obj)" by (cases e)
  let ?s1 = "ensure_has_object_label ops a label"
  let ?cur = "entry_or_new ops a label"
  have cur: "map_of ?s1 label = Some ?cur" by (simp add: map_of_ensure)
  have wcur: "wf_os ?cur" "os_label ?cur = label" using wf_entry_or_new [OF Cons.prems(1)] by auto
  from Cons.prems(2) e have wo: "wf_os obj" "os_label obj = label"
    "map_of rest label = None" "wf_cs rest" by auto
  from Cons.prems(3) [of label obj] e
  obtain mg where mg: "os_merge_schema ops ?cur obj = Inr mg" by auto
  from os_merge_dest(2,3) [OF wcur(1) wo(1) mg] wcur(2)
  have wmg: "wf_os mg" "os_label mg = label" by auto
  let ?s2 = "AList.update label mg ?s1"
  have w2: "wf_cs ?s2" using wf_ensure [OF Cons.prems(1)] wmg by (simp add: wf_cs_update)
  have "\<exists>r. ocs_merge_schema ops ?s2 rest = Inr r"
  proof (rule Cons.IH [OF w2 wo(4)])
    fix k y
    assume y: "map_of rest k = Some y"
    with wo(3) have ne: "k \<noteq> label" by auto
    then have "map_of ?s2 k = map_of a k" by (simp add: update_conv' map_of_ensure)
    then have e2: "entry_or_new ops ?s2 k = entry_or_new ops a k" by (simp add: entry_or_new_def)
    from Cons.prems(3) [of k y] y ne e
    show "\<exists>mg. os_merge_schema ops (entry_or_new ops ?s2 k) y = Inr mg" unfolding e2 by simp
  qed
  then show ?case using e cur mg by (simp add: Let_def)
qed

text \<open>Merging into a fresh object schema gives the contents of the other one.\<close>

lemma unit_cs_from_elems:
  fixes ops :: "'a acs_ops"
  assumes wc: "wf_cs c"
    and E: "\<And>k y. map_of c k = Some y \<Longrightarrow>
              \<exists>r. os_merge_schema ops (new_ObjectSchema ops k) y = Inr r
                 \<and> os_contents r = os_contents y"
  shows "\<exists>c'. ocs_merge_schema ops [] c = Inr c' \<and> cs_contents c' = cs_contents c"
proof -
  have wn: "wf_cs ([] :: 'a ObjectContainerSchema)" by simp
  have en: "entry_or_new ops [] k = new_ObjectSchema ops k" for k
    by (simp add: entry_or_new_def)
  have "\<exists>r. ocs_merge_schema ops [] c = Inr r"
  proof (rule ocs_merge_returns [OF wn wc])
    fix k y
    assume "map_of c k = Some y"
    from E [OF this] show "\<exists>mg. os_merge_schema ops (entry_or_new ops [] k) y = Inr mg"
      unfolding en by blast
  qed
  then obtain c' where c': "ocs_merge_schema ops [] c = Inr c'" ..
  have "cs_contents c' k = cs_contents c k" for k
  proof (cases "map_of c k")
    case None
    from ocs_merge_None [OF wn wc c' None] None show ?thesis by (simp add: cs_contents_apply)
  next
    case (Some y)
    from ocs_merge_Some [OF wn wc c' Some]
    obtain mg where mg: "os_merge_schema ops (entry_or_new ops [] k) y = Inr mg"
      "map_of c' k = Some mg" .
    from E [OF Some] mg(1) have "os_contents mg = os_contents y" unfolding en by auto
    with mg(2) Some show ?thesis by (simp add: cs_contents_apply)
  qed
  then have "cs_contents c' = cs_contents c" by (rule ext)
  with c' show ?thesis by blast
qed

lemma unit_os:
  assumes U: "union_laws ops"
  shows "wf_os y \<Longrightarrow>
         \<exists>r. os_merge_schema ops (new_ObjectSchema ops (os_label y)) y = Inr r
            \<and> os_contents r = os_contents y"
proof (induction y)
  case (ObjectSchema l a f c)
  let ?y = "ObjectSchema l a f c"
  let ?n = "new_ObjectSchema ops l"
  from U have unit: "\<And>x. acs_merge_schema ops (acs_new ops) x = Inr x"
    unfolding union_laws_def by blast
  from ObjectSchema.prems have wc: "wf_cs c" by simp
  have "\<exists>c'. ocs_merge_schema ops [] c = Inr c' \<and> cs_contents c' = cs_contents c"
  proof (rule unit_cs_from_elems [OF wc])
    fix k y'
    assume y': "map_of c k = Some y'"
    from wf_cs_map_of [OF wc y'] have l: "os_label y' = k" and w: "wf_os y'" by auto
    from child_in_set [OF y'] have i: "(k, y') \<in> set c" "y' \<in> Basic_BNFs.snds (k, y')" by auto
    from ObjectSchema.IH [OF i w] l
    show "\<exists>r. os_merge_schema ops (new_ObjectSchema ops k) y' = Inr r
            \<and> os_contents r = os_contents y'" by simp
  qed
  then obtain c' where c': "ocs_merge_schema ops [] c = Inr c'" "cs_contents c' = cs_contents c"
    by blast
  have "os_merge_schema ops ?n ?y = Inr (ObjectSchema (os_label ?n) a f c')"
    by (rule os_merge_intro) (simp_all add: new_ObjectSchema_def unit c')
  with c'(2) show ?case by (simp add: new_ObjectSchema_def os_contents_eq)
qed

lemma entry_unit:
  assumes U: "union_laws ops" and "wf_cs c" and "map_of c k = Some y" and "map_of a k = None"
  shows "\<exists>r. os_merge_schema ops (entry_or_new ops a k) y = Inr r \<and> os_contents r = os_contents y"
proof -
  from wf_cs_map_of [OF assms(2,3)] have y: "os_label y = k" "wf_os y" by auto
  from unit_os [OF U y(2)] y(1) assms(4) show ?thesis
    by (simp add: entry_or_new_def)
qed

text \<open>Commutativity, where the merge returns.\<close>

lemma comm_cs_from_elems:
  fixes ops :: "'a acs_ops"
  assumes U: "union_laws ops" and wa: "wf_cs a" and wb: "wf_cs b"
    and ab: "ocs_merge_schema ops a b = Inr ab"
    and E: "\<And>k x' y' m1. map_of a k = Some x' \<Longrightarrow> map_of b k = Some y' \<Longrightarrow>
              os_merge_schema ops x' y' = Inr m1 \<Longrightarrow>
              \<exists>m2. os_merge_schema ops y' x' = Inr m2 \<and> os_contents m1 = os_contents m2"
  shows "\<exists>ba. ocs_merge_schema ops b a = Inr ba \<and> cs_contents ab = cs_contents ba"
proof -
  have "\<exists>r. ocs_merge_schema ops b a = Inr r"
  proof (rule ocs_merge_returns [OF wb wa])
    fix k x'
    assume x': "map_of a k = Some x'"
    show "\<exists>mg. os_merge_schema ops (entry_or_new ops b k) x' = Inr mg"
    proof (cases "map_of b k")
      case None
      from entry_unit [OF U wa x' None] show ?thesis by blast
    next
      case (Some y')
      from ocs_merge_Some [OF wa wb ab Some]
      obtain m1 where m1: "os_merge_schema ops (entry_or_new ops a k) y' = Inr m1"
        "map_of ab k = Some m1" .
      from m1(1) x' have "os_merge_schema ops x' y' = Inr m1" by (simp add: entry_or_new_def)
      from E [OF x' Some this] Some show ?thesis by (auto simp: entry_or_new_def)
    qed
  qed
  then obtain ba where ba: "ocs_merge_schema ops b a = Inr ba" ..
  have "cs_contents ab k = cs_contents ba k" for k
  proof (cases "map_of a k")
    case None
    note an = this
    show ?thesis
    proof (cases "map_of b k")
      case None
      from ocs_merge_None [OF wa wb ab None] ocs_merge_None [OF wb wa ba an] an None
      show ?thesis by (simp add: cs_contents_apply)
    next
      case (Some y')
      from ocs_merge_Some [OF wa wb ab Some]
      obtain m1 where m1: "os_merge_schema ops (entry_or_new ops a k) y' = Inr m1"
        "map_of ab k = Some m1" .
      from entry_unit [OF U wb Some an] m1(1) have "os_contents m1 = os_contents y'" by auto
      with m1(2) ocs_merge_None [OF wb wa ba an] Some show ?thesis
        by (simp add: cs_contents_apply)
    qed
  next
    case (Some x')
    note ax = this
    show ?thesis
    proof (cases "map_of b k")
      case None
      from ocs_merge_Some [OF wb wa ba ax]
      obtain m2 where m2: "os_merge_schema ops (entry_or_new ops b k) x' = Inr m2"
        "map_of ba k = Some m2" .
      from entry_unit [OF U wa ax None] m2(1) have "os_contents m2 = os_contents x'" by auto
      with m2(2) ocs_merge_None [OF wa wb ab None] ax show ?thesis
        by (simp add: cs_contents_apply)
    next
      case (Some y')
      from ocs_merge_Some [OF wa wb ab Some]
      obtain m1 where m1: "os_merge_schema ops (entry_or_new ops a k) y' = Inr m1"
        "map_of ab k = Some m1" .
      from ocs_merge_Some [OF wb wa ba ax]
      obtain m2 where m2: "os_merge_schema ops (entry_or_new ops b k) x' = Inr m2"
        "map_of ba k = Some m2" .
      from m1(1) ax have e1: "os_merge_schema ops x' y' = Inr m1" by (simp add: entry_or_new_def)
      from m2(1) Some have e2: "os_merge_schema ops y' x' = Inr m2" by (simp add: entry_or_new_def)
      from E [OF ax Some e1] e2 have "os_contents m1 = os_contents m2" by auto
      with m1(2) m2(2) show ?thesis by (simp add: cs_contents_apply)
    qed
  qed
  then have "cs_contents ab = cs_contents ba" by (rule ext)
  with ba show ?thesis by blast
qed

lemma comm_os:
  assumes U: "union_laws ops"
  shows "wf_os y \<Longrightarrow> wf_os x \<Longrightarrow> os_merge_schema ops x y = Inr m1 \<Longrightarrow>
         \<exists>m2. os_merge_schema ops y x = Inr m2 \<and> os_contents m1 = os_contents m2"
proof (induction y arbitrary: x m1)
  case (ObjectSchema l a f c)
  let ?y = "ObjectSchema l a f c"
  from U have comm: "\<And>x y xy. acs_merge_schema ops x y = Inr xy \<Longrightarrow> acs_merge_schema ops y x = Inr xy"
    unfolding union_laws_def by blast
  note d = os_merge_dest [OF ObjectSchema.prems(2,1,3)]
  have wc: "wf_cs c" using ObjectSchema.prems(1) by simp
  have wx: "wf_cs (os_child_objects x)" using ObjectSchema.prems(2) by (rule wf_os_children)
  from d(1) have lx: "os_label x = l" by simp
  from comm [OF d(4)] have a: "acs_merge_schema ops a (os_attrs x) = Inr (os_attrs m1)" by simp
  from comm [OF d(5)] have f: "acs_merge_schema ops f (os_frames x) = Inr (os_frames m1)" by simp
  from d(6) have cm: "ocs_merge_schema ops (os_child_objects x) c = Inr (os_child_objects m1)"
    by simp
  have "\<exists>c2. ocs_merge_schema ops c (os_child_objects x) = Inr c2
          \<and> cs_contents (os_child_objects m1) = cs_contents c2"
  proof (rule comm_cs_from_elems [OF U wx wc cm])
    fix k x' y' m
    assume x': "map_of (os_child_objects x) k = Some x'" and y': "map_of c k = Some y'"
      and m: "os_merge_schema ops x' y' = Inr m"
    from wf_cs_map_of [OF wx x'] wf_cs_map_of [OF wc y']
    have w: "wf_os y'" "wf_os x'" by auto
    from child_in_set [OF y'] have i: "(k, y') \<in> set c" "y' \<in> Basic_BNFs.snds (k, y')" by auto
    show "\<exists>m2. os_merge_schema ops y' x' = Inr m2 \<and> os_contents m = os_contents m2"
      by (rule ObjectSchema.IH [OF i w m])
  qed
  then obtain c2 where c2: "ocs_merge_schema ops c (os_child_objects x) = Inr c2"
    "cs_contents (os_child_objects m1) = cs_contents c2" by blast
  have "os_merge_schema ops ?y x = Inr (ObjectSchema (os_label ?y) (os_attrs m1) (os_frames m1) c2)"
    by (rule os_merge_intro) (simp_all add: lx a f c2)
  with c2(2) d(3) lx show ?case by (simp add: os_contents_eq [of m1] cs_contents_def)
qed

lemma comm_cs:
  assumes U: "union_laws ops" and wa: "wf_cs a" and wb: "wf_cs b"
    and ab: "ocs_merge_schema ops a b = Inr ab"
  shows "\<exists>ba. ocs_merge_schema ops b a = Inr ba \<and> cs_contents ab = cs_contents ba"
proof (rule comm_cs_from_elems [OF U wa wb ab])
  fix k x' y' m1
  assume x': "map_of a k = Some x'" and y': "map_of b k = Some y'"
    and m: "os_merge_schema ops x' y' = Inr m1"
  from wf_cs_map_of [OF wa x'] wf_cs_map_of [OF wb y']
  have w: "wf_os y'" "wf_os x'" by auto
  show "\<exists>m2. os_merge_schema ops y' x' = Inr m2 \<and> os_contents m1 = os_contents m2"
    by (rule comm_os [OF U w m])
qed

text \<open>Merging schemas of equal contents gives schemas of equal contents.\<close>

lemma cong_cs_from_elems:
  fixes ops :: "'a acs_ops"
  assumes wa: "wf_cs a" and wb: "wf_cs b" and wb': "wf_cs b'"
    and eq: "cs_contents b = cs_contents b'"
    and ab: "ocs_merge_schema ops a b = Inr r1"
    and E: "\<And>k x' w' z' m1. map_of b k = Some w' \<Longrightarrow> map_of b' k = Some z' \<Longrightarrow> wf_os x' \<Longrightarrow>
              os_contents w' = os_contents z' \<Longrightarrow> os_merge_schema ops x' w' = Inr m1 \<Longrightarrow>
              \<exists>m2. os_merge_schema ops x' z' = Inr m2 \<and> os_contents m1 = os_contents m2"
  shows "\<exists>r2. ocs_merge_schema ops a b' = Inr r2 \<and> cs_contents r1 = cs_contents r2"
proof -
  have rel: "map_option os_contents (map_of b k) = map_option os_contents (map_of b' k)" for k
    using eq by (simp add: cs_contents_apply [symmetric])
  have we: "wf_os (entry_or_new ops a k)" for k using wf_entry_or_new [OF wa] by simp
  have "\<exists>r. ocs_merge_schema ops a b' = Inr r"
  proof (rule ocs_merge_returns [OF wa wb'])
    fix k z'
    assume z': "map_of b' k = Some z'"
    with rel [of k] obtain w' where w': "map_of b k = Some w'" "os_contents w' = os_contents z'"
      by auto
    from ocs_merge_Some [OF wa wb ab w'(1)]
    obtain m1 where m1: "os_merge_schema ops (entry_or_new ops a k) w' = Inr m1"
      "map_of r1 k = Some m1" .
    from E [OF w'(1) z' we w'(2) m1(1)]
    show "\<exists>mg. os_merge_schema ops (entry_or_new ops a k) z' = Inr mg" by blast
  qed
  then obtain r2 where r2: "ocs_merge_schema ops a b' = Inr r2" ..
  have "cs_contents r1 k = cs_contents r2 k" for k
  proof (cases "map_of b' k")
    case None
    with rel [of k] have bn: "map_of b k = None" by simp
    from ocs_merge_None [OF wa wb ab bn] ocs_merge_None [OF wa wb' r2 None]
    show ?thesis by (simp add: cs_contents_apply)
  next
    case (Some z')
    with rel [of k] obtain w' where w': "map_of b k = Some w'" "os_contents w' = os_contents z'"
      by auto
    from ocs_merge_Some [OF wa wb ab w'(1)]
    obtain m1 where m1: "os_merge_schema ops (entry_or_new ops a k) w' = Inr m1"
      "map_of r1 k = Some m1" .
    from ocs_merge_Some [OF wa wb' r2 Some]
    obtain m2 where m2: "os_merge_schema ops (entry_or_new ops a k) z' = Inr m2"
      "map_of r2 k = Some m2" .
    from E [OF w'(1) Some we w'(2) m1(1)] m2(1) have "os_contents m1 = os_contents m2" by auto
    with m1(2) m2(2) show ?thesis by (simp add: cs_contents_apply)
  qed
  then have "cs_contents r1 = cs_contents r2" by (rule ext)
  with r2 show ?thesis by blast
qed

lemma cong_os:
  fixes ops :: "'a acs_ops"
  shows "wf_os w \<Longrightarrow> wf_os z \<Longrightarrow> wf_os x \<Longrightarrow> os_contents w = os_contents z \<Longrightarrow>
         os_merge_schema ops x w = Inr m1 \<Longrightarrow>
         \<exists>m2. os_merge_schema ops x z = Inr m2 \<and> os_contents m1 = os_contents m2"
proof (induction w arbitrary: x z m1)
  case (ObjectSchema l a f c)
  let ?w = "ObjectSchema l a f c"
  from ObjectSchema.prems(4)
  have z: "os_label z = l" "os_attrs z = a" "os_frames z = f"
    "cs_contents (os_child_objects z) = cs_contents c"
    by (simp_all add: os_contents_eq [of z] cs_contents_def)
  note d = os_merge_dest [OF ObjectSchema.prems(3,1,5)]
  have wc: "wf_cs c" using ObjectSchema.prems(1) by simp
  have wz: "wf_cs (os_child_objects z)" using ObjectSchema.prems(2) by (rule wf_os_children)
  have wx: "wf_cs (os_child_objects x)" using ObjectSchema.prems(3) by (rule wf_os_children)
  from d(1) have lx: "os_label x = l" by simp
  from d(6) have cm: "ocs_merge_schema ops (os_child_objects x) c = Inr (os_child_objects m1)"
    by simp
  have "\<exists>c2. ocs_merge_schema ops (os_child_objects x) (os_child_objects z) = Inr c2
          \<and> cs_contents (os_child_objects m1) = cs_contents c2"
  proof (rule cong_cs_from_elems [OF wx wc wz z(4) [symmetric] cm])
    fix k x' w' z' m
    assume w': "map_of c k = Some w'" and z': "map_of (os_child_objects z) k = Some z'"
      and x': "wf_os x'" and ce: "os_contents w' = os_contents z'"
      and m: "os_merge_schema ops x' w' = Inr m"
    from wf_cs_map_of [OF wc w'] wf_cs_map_of [OF wz z']
    have w: "wf_os w'" "wf_os z'" by auto
    from child_in_set [OF w'] have i: "(k, w') \<in> set c" "w' \<in> Basic_BNFs.snds (k, w')" by auto
    show "\<exists>m2. os_merge_schema ops x' z' = Inr m2 \<and> os_contents m = os_contents m2"
      by (rule ObjectSchema.IH [OF i w x' ce m])
  qed
  then obtain c2 where c2: "ocs_merge_schema ops (os_child_objects x) (os_child_objects z) = Inr c2"
    "cs_contents (os_child_objects m1) = cs_contents c2" by blast
  from d(4,5) have af: "acs_merge_schema ops (os_attrs x) a = Inr (os_attrs m1)"
    "acs_merge_schema ops (os_frames x) f = Inr (os_frames m1)"
    by simp_all
  have "os_merge_schema ops x z = Inr (ObjectSchema (os_label x) (os_attrs m1) (os_frames m1) c2)"
    by (rule os_merge_intro) (simp_all add: lx z af c2)
  with c2(2) d(3) show ?case by (simp add: os_contents_eq [of m1] cs_contents_def)
qed

lemma cong_cs:
  fixes ops :: "'a acs_ops"
  assumes wa: "wf_cs a" and wb: "wf_cs b" and wb': "wf_cs b'"
    and eq: "cs_contents b = cs_contents b'"
    and ab: "ocs_merge_schema ops a b = Inr r1"
  shows "\<exists>r2. ocs_merge_schema ops a b' = Inr r2 \<and> cs_contents r1 = cs_contents r2"
proof (rule cong_cs_from_elems [OF wa wb wb' eq ab])
  fix k x' w' z' m1
  assume w': "map_of b k = Some w'" and z': "map_of b' k = Some z'"
    and x': "wf_os (x' :: 'a ObjectSchema)" and ce: "os_contents w' = os_contents z'"
    and m: "os_merge_schema ops x' w' = Inr m1"
  from wf_cs_map_of [OF wb w'] wf_cs_map_of [OF wb' z']
  have w: "wf_os w'" "wf_os z'" by auto
  show "\<exists>m2. os_merge_schema ops x' z' = Inr m2 \<and> os_contents m1 = os_contents m2"
    by (rule cong_os [OF w x' ce m])
qed

text \<open>Associativity, where the merges grouped to the left return.\<close>

lemma assoc_cs_from_elems:
  fixes ops :: "'a acs_ops"
  assumes U: "union_laws ops" and wa: "wf_cs a" and wb: "wf_cs b" and wc: "wf_cs c"
    and ab: "ocs_merge_schema ops a b = Inr ab" and abc: "ocs_merge_schema ops ab c = Inr r1"
    and E: "\<And>k x' y' z' xy m1. map_of b k = Some y' \<Longrightarrow> map_of c k = Some z' \<Longrightarrow> wf_os x' \<Longrightarrow>
              os_merge_schema ops x' y' = Inr xy \<Longrightarrow> os_merge_schema ops xy z' = Inr m1 \<Longrightarrow>
              \<exists>yz m2. os_merge_schema ops y' z' = Inr yz \<and> os_merge_schema ops x' yz = Inr m2
                 \<and> os_contents m1 = os_contents m2"
  shows "\<exists>bc r2. ocs_merge_schema ops b c = Inr bc \<and> ocs_merge_schema ops a bc = Inr r2
           \<and> cs_contents r1 = cs_contents r2"
proof -
  have wab: "wf_cs ab" by (rule ocs_merge_wf [OF wa wb ab])
  have we: "wf_os (entry_or_new ops a k)" for k using wf_entry_or_new [OF wa] by simp
  have web: "wf_os (entry_or_new ops b k)" for k using wf_entry_or_new [OF wb] by simp
  have both: "\<exists>m1 yz m2. map_of r1 k = Some m1
        \<and> os_merge_schema ops (entry_or_new ops b k) z = Inr yz
        \<and> os_merge_schema ops (entry_or_new ops a k) yz = Inr m2
        \<and> os_contents m1 = os_contents m2"
    if y: "map_of b k = Some y" and z: "map_of c k = Some z" for k y z
  proof -
    from ocs_merge_Some [OF wa wb ab y]
    obtain xy where xy: "os_merge_schema ops (entry_or_new ops a k) y = Inr xy"
      "map_of ab k = Some xy" .
    from ocs_merge_Some [OF wab wc abc z]
    obtain m1 where m1: "os_merge_schema ops (entry_or_new ops ab k) z = Inr m1"
      "map_of r1 k = Some m1" .
    from m1(1) xy(2) have m1': "os_merge_schema ops xy z = Inr m1" by (simp add: entry_or_new_def)
    from E [OF y z we xy(1) m1']
    obtain yz m2 where q: "os_merge_schema ops y z = Inr yz"
      "os_merge_schema ops (entry_or_new ops a k) yz = Inr m2" "os_contents m1 = os_contents m2"
      by blast
    from q(1) y have q1: "os_merge_schema ops (entry_or_new ops b k) z = Inr yz"
      by (simp add: entry_or_new_def)
    from m1(2) q1 q(2,3) show ?thesis by blast
  qed
  have conly: "\<exists>m1 yz m2. map_of r1 k = Some m1
        \<and> os_merge_schema ops (entry_or_new ops b k) z = Inr yz
        \<and> os_merge_schema ops (entry_or_new ops a k) yz = Inr m2
        \<and> os_contents m1 = os_contents m2"
    if bn: "map_of b k = None" and z: "map_of c k = Some z" for k z
  proof -
    from ocs_merge_None [OF wa wb ab bn] have "map_of ab k = map_of a k" .
    then have ee: "entry_or_new ops ab k = entry_or_new ops a k" by (simp add: entry_or_new_def)
    from ocs_merge_Some [OF wab wc abc z]
    obtain m1 where m1: "os_merge_schema ops (entry_or_new ops ab k) z = Inr m1"
      "map_of r1 k = Some m1" .
    from m1(1) have m1': "os_merge_schema ops (entry_or_new ops a k) z = Inr m1" unfolding ee .
    from entry_unit [OF U wc z bn]
    obtain yz where yz: "os_merge_schema ops (entry_or_new ops b k) z = Inr yz"
      "os_contents yz = os_contents z" by blast
    from wf_cs_map_of [OF wc z] have wz: "wf_os z" by simp
    have wyz: "wf_os yz" by (rule os_merge_dest(2) [OF web wz yz(1)])
    from cong_os [OF wz wyz we yz(2) [symmetric] m1']
    obtain m2 where m2: "os_merge_schema ops (entry_or_new ops a k) yz = Inr m2"
      "os_contents m1 = os_contents m2" by blast
    from m1(2) yz(1) m2 show ?thesis by blast
  qed
  have either: "\<exists>m1 yz m2. map_of r1 k = Some m1
        \<and> os_merge_schema ops (entry_or_new ops b k) z = Inr yz
        \<and> os_merge_schema ops (entry_or_new ops a k) yz = Inr m2
        \<and> os_contents m1 = os_contents m2"
    if z: "map_of c k = Some z" for k z
  proof (cases "map_of b k")
    case None
    then show ?thesis using z by (rule conly)
  next
    case (Some y)
    then show ?thesis using z by (rule both)
  qed
  have "\<exists>r. ocs_merge_schema ops b c = Inr r"
  proof (rule ocs_merge_returns [OF wb wc])
    fix k z
    assume z: "map_of c k = Some z"
    from either [OF z] show "\<exists>mg. os_merge_schema ops (entry_or_new ops b k) z = Inr mg" by blast
  qed
  then obtain bc where bc: "ocs_merge_schema ops b c = Inr bc" ..
  have wbc: "wf_cs bc" by (rule ocs_merge_wf [OF wb wc bc])
  have "\<exists>r. ocs_merge_schema ops a bc = Inr r"
  proof (rule ocs_merge_returns [OF wa wbc])
    fix k w
    assume w: "map_of bc k = Some w"
    show "\<exists>mg. os_merge_schema ops (entry_or_new ops a k) w = Inr mg"
    proof (cases "map_of c k")
      case None
      from ocs_merge_None [OF wb wc bc None] w have bw: "map_of b k = Some w" by simp
      from ocs_merge_Some [OF wa wb ab bw] show ?thesis by blast
    next
      case (Some z)
      from ocs_merge_Some [OF wb wc bc Some] w
      have q: "os_merge_schema ops (entry_or_new ops b k) z = Inr w" by auto
      from either [OF Some]
      obtain m1 yz m2 where e: "os_merge_schema ops (entry_or_new ops b k) z = Inr yz"
        "os_merge_schema ops (entry_or_new ops a k) yz = Inr m2" by blast
      from e(1) q have "yz = w" by simp
      with e(2) show ?thesis by blast
    qed
  qed
  then obtain r2 where r2: "ocs_merge_schema ops a bc = Inr r2" ..
  have "cs_contents r1 k = cs_contents r2 k" for k
  proof (cases "map_of c k")
    case None
    note cn = this
    from ocs_merge_None [OF wab wc abc cn] have r1k: "map_of r1 k = map_of ab k" .
    from ocs_merge_None [OF wb wc bc cn] have bck: "map_of bc k = map_of b k" .
    show ?thesis
    proof (cases "map_of b k")
      case None
      from ocs_merge_None [OF wa wb ab None] have "map_of ab k = map_of a k" .
      moreover from bck None have "map_of bc k = None" by simp
      from ocs_merge_None [OF wa wbc r2 this] have "map_of r2 k = map_of a k" .
      ultimately show ?thesis using r1k by (simp add: cs_contents_apply)
    next
      case (Some y)
      from ocs_merge_Some [OF wa wb ab Some]
      obtain xy where xy: "os_merge_schema ops (entry_or_new ops a k) y = Inr xy"
        "map_of ab k = Some xy" .
      from bck Some have "map_of bc k = Some y" by simp
      from ocs_merge_Some [OF wa wbc r2 this]
      obtain m where m: "os_merge_schema ops (entry_or_new ops a k) y = Inr m"
        "map_of r2 k = Some m" .
      from xy(1) m(1) have "xy = m" by simp
      with xy(2) m(2) r1k show ?thesis by (simp add: cs_contents_apply)
    qed
  next
    case (Some z)
    from ocs_merge_Some [OF wb wc bc Some]
    obtain yz0 where yz0: "os_merge_schema ops (entry_or_new ops b k) z = Inr yz0"
      "map_of bc k = Some yz0" .
    from ocs_merge_Some [OF wa wbc r2 yz0(2)]
    obtain m20 where m20: "os_merge_schema ops (entry_or_new ops a k) yz0 = Inr m20"
      "map_of r2 k = Some m20" .
    from either [OF Some]
    obtain m1 yz m2 where e: "map_of r1 k = Some m1"
      "os_merge_schema ops (entry_or_new ops b k) z = Inr yz"
      "os_merge_schema ops (entry_or_new ops a k) yz = Inr m2"
      "os_contents m1 = os_contents m2" by blast
    from e(2) yz0(1) have "yz = yz0" by simp
    with e(3) m20(1) have "m2 = m20" by simp
    with e(1,4) m20(2) show ?thesis by (simp add: cs_contents_apply)
  qed
  then have "cs_contents r1 = cs_contents r2" by (rule ext)
  with bc r2 show ?thesis by blast
qed

lemma assoc_os:
  assumes U: "union_laws ops"
  shows "wf_os z \<Longrightarrow> wf_os y \<Longrightarrow> wf_os x \<Longrightarrow>
         os_merge_schema ops x y = Inr xy \<Longrightarrow> os_merge_schema ops xy z = Inr m1 \<Longrightarrow>
         \<exists>yz m2. os_merge_schema ops y z = Inr yz \<and> os_merge_schema ops x yz = Inr m2
            \<and> os_contents m1 = os_contents m2"
proof (induction z arbitrary: x y xy m1)
  case (ObjectSchema l a f c)
  let ?z = "ObjectSchema l a f c"
  note d1 = os_merge_dest [OF ObjectSchema.prems(3,2,4)]
  note d2 = os_merge_dest [OF d1(2) ObjectSchema.prems(1,5)]
  from U have assoc: "\<And>x y z xy r. acs_merge_schema ops x y = Inr xy \<Longrightarrow>
      acs_merge_schema ops xy z = Inr r \<Longrightarrow>
      \<exists>yz. acs_merge_schema ops y z = Inr yz \<and> acs_merge_schema ops x yz = Inr r"
    unfolding union_laws_def by blast
  from assoc [OF d1(4) d2(4)]
  obtain ayz where ayz: "acs_merge_schema ops (os_attrs y) a = Inr ayz"
    "acs_merge_schema ops (os_attrs x) ayz = Inr (os_attrs m1)" by auto
  from assoc [OF d1(5) d2(5)]
  obtain fyz where fyz: "acs_merge_schema ops (os_frames y) f = Inr fyz"
    "acs_merge_schema ops (os_frames x) fyz = Inr (os_frames m1)" by auto
  have wc: "wf_cs c" using ObjectSchema.prems(1) by simp
  have wy: "wf_cs (os_child_objects y)" using ObjectSchema.prems(2) by (rule wf_os_children)
  have wx: "wf_cs (os_child_objects x)" using ObjectSchema.prems(3) by (rule wf_os_children)
  from d2(6) have cabc: "ocs_merge_schema ops (os_child_objects xy) c = Inr (os_child_objects m1)"
    by simp
  have "\<exists>bc r2. ocs_merge_schema ops (os_child_objects y) c = Inr bc
          \<and> ocs_merge_schema ops (os_child_objects x) bc = Inr r2
          \<and> cs_contents (os_child_objects m1) = cs_contents r2"
  proof (rule assoc_cs_from_elems [OF U wx wy wc d1(6) cabc])
    fix k x' y' z' xy' m
    assume y': "map_of (os_child_objects y) k = Some y'" and z': "map_of c k = Some z'"
      and x': "wf_os x'" and xy': "os_merge_schema ops x' y' = Inr xy'"
      and m: "os_merge_schema ops xy' z' = Inr m"
    from wf_cs_map_of [OF wc z'] wf_cs_map_of [OF wy y']
    have w: "wf_os z'" "wf_os y'" by auto
    from child_in_set [OF z'] have i: "(k, z') \<in> set c" "z' \<in> Basic_BNFs.snds (k, z')" by auto
    show "\<exists>yz m2. os_merge_schema ops y' z' = Inr yz \<and> os_merge_schema ops x' yz = Inr m2
            \<and> os_contents m = os_contents m2"
      by (rule ObjectSchema.IH [OF i w x' xy' m])
  qed
  then obtain cbc cr2 where cc: "ocs_merge_schema ops (os_child_objects y) c = Inr cbc"
    "ocs_merge_schema ops (os_child_objects x) cbc = Inr cr2"
    "cs_contents (os_child_objects m1) = cs_contents cr2" by blast
  from d1(1,3) d2(1,3) have ls: "os_label y = l" "os_label x = l" "os_label m1 = l" by simp_all
  let ?yz = "ObjectSchema (os_label y) ayz fyz cbc"
  let ?m2 = "ObjectSchema (os_label x) (os_attrs m1) (os_frames m1) cr2"
  have yz: "os_merge_schema ops y ?z = Inr ?yz"
    by (rule os_merge_intro) (simp_all add: ls ayz fyz cc)
  have m2: "os_merge_schema ops x ?yz = Inr ?m2"
    by (rule os_merge_intro) (simp_all add: ls ayz fyz cc)
  have ce: "os_contents m1 = os_contents ?m2"
    using cc(3) ls by (simp add: os_contents_eq [of m1] cs_contents_def)
  from yz m2 ce show ?case by blast
qed

lemma assoc_cs:
  fixes ops :: "'a acs_ops"
  assumes U: "union_laws ops" and wa: "wf_cs a" and wb: "wf_cs b" and wc: "wf_cs c"
    and ab: "ocs_merge_schema ops a b = Inr ab" and abc: "ocs_merge_schema ops ab c = Inr r1"
  shows "\<exists>bc r2. ocs_merge_schema ops b c = Inr bc \<and> ocs_merge_schema ops a bc = Inr r2
           \<and> cs_contents r1 = cs_contents r2"
proof (rule assoc_cs_from_elems [OF U wa wb wc ab abc])
  fix k x' y' z' xy m1
  assume y': "map_of b k = Some y'" and z': "map_of c k = Some z'"
    and x': "wf_os (x' :: 'a ObjectSchema)" and xy: "os_merge_schema ops x' y' = Inr xy"
    and m: "os_merge_schema ops xy z' = Inr m1"
  from wf_cs_map_of [OF wc z'] wf_cs_map_of [OF wb y']
  have w: "wf_os z'" "wf_os y'" by auto
  show "\<exists>yz m2. os_merge_schema ops y' z' = Inr yz \<and> os_merge_schema ops x' yz = Inr m2
          \<and> os_contents m1 = os_contents m2"
    by (rule assoc_os [OF U w x' xy m])
qed

text \<open>
  The other direction follows from commutativity: \<open>a\<close> merged with \<open>b\<close> merged
  with \<open>c\<close> is \<open>c\<close> merged with \<open>b\<close>, merged with \<open>a\<close>.
\<close>

lemma cong_left_cs:
  fixes ops :: "'a acs_ops"
  assumes U: "union_laws ops" and wa: "wf_cs a" and wa': "wf_cs a'" and wb: "wf_cs b"
    and eq: "cs_contents a = cs_contents a'"
    and ab: "ocs_merge_schema ops a b = Inr r1"
  shows "\<exists>r2. ocs_merge_schema ops a' b = Inr r2 \<and> cs_contents r1 = cs_contents r2"
proof -
  from comm_cs [OF U wa wb ab]
  obtain r3 where r3: "ocs_merge_schema ops b a = Inr r3" "cs_contents r1 = cs_contents r3"
    by blast
  from cong_cs [OF wb wa wa' eq r3(1)]
  obtain r4 where r4: "ocs_merge_schema ops b a' = Inr r4" "cs_contents r3 = cs_contents r4"
    by blast
  from comm_cs [OF U wb wa' r4(1)]
  obtain r2 where r2: "ocs_merge_schema ops a' b = Inr r2" "cs_contents r4 = cs_contents r2"
    by blast
  from r3(2) r4(2) r2(2) have "cs_contents r1 = cs_contents r2" by simp
  with r2(1) show ?thesis by blast
qed

lemma assoc_cs_back:
  fixes ops :: "'a acs_ops"
  assumes U: "union_laws ops" and wa: "wf_cs a" and wb: "wf_cs b" and wc: "wf_cs c"
    and bc: "ocs_merge_schema ops b c = Inr bc" and abc: "ocs_merge_schema ops a bc = Inr r2"
  shows "\<exists>ab r1. ocs_merge_schema ops a b = Inr ab \<and> ocs_merge_schema ops ab c = Inr r1
           \<and> cs_contents r1 = cs_contents r2"
proof -
  have wbc: "wf_cs bc" by (rule ocs_merge_wf [OF wb wc bc])
  from comm_cs [OF U wb wc bc]
  obtain cb where cb: "ocs_merge_schema ops c b = Inr cb" "cs_contents bc = cs_contents cb"
    by blast
  have wcb: "wf_cs cb" by (rule ocs_merge_wf [OF wc wb cb(1)])
  from comm_cs [OF U wa wbc abc]
  obtain r3 where r3: "ocs_merge_schema ops bc a = Inr r3" "cs_contents r2 = cs_contents r3"
    by blast
  from cong_left_cs [OF U wbc wcb wa cb(2) r3(1)]
  obtain r4 where r4: "ocs_merge_schema ops cb a = Inr r4" "cs_contents r3 = cs_contents r4"
    by blast
  from assoc_cs [OF U wc wb wa cb(1) r4(1)]
  obtain ba r5 where r5: "ocs_merge_schema ops b a = Inr ba" "ocs_merge_schema ops c ba = Inr r5"
    "cs_contents r4 = cs_contents r5" by blast
  have wba: "wf_cs ba" by (rule ocs_merge_wf [OF wb wa r5(1)])
  from comm_cs [OF U wb wa r5(1)]
  obtain ab where ab: "ocs_merge_schema ops a b = Inr ab" "cs_contents ba = cs_contents ab"
    by blast
  have wab: "wf_cs ab" by (rule ocs_merge_wf [OF wa wb ab(1)])
  from comm_cs [OF U wc wba r5(2)]
  obtain r6 where r6: "ocs_merge_schema ops ba c = Inr r6" "cs_contents r5 = cs_contents r6"
    by blast
  from cong_left_cs [OF U wba wab wc ab(2) r6(1)]
  obtain r1 where r1: "ocs_merge_schema ops ab c = Inr r1" "cs_contents r6 = cs_contents r1"
    by blast
  from r3(2) r4(2) r5(3) r6(2) r1(2) have "cs_contents r1 = cs_contents r2" by simp
  with ab(1) r1(1) show ?thesis by blast
qed

text \<open>The labels of a merge, and when a merge returns.\<close>

lemma keys_merge:
  assumes wa: "wf_cs a" and wb: "wf_cs b" and ab: "ocs_merge_schema ops a b = Inr ab"
  shows "fst ` set ab = fst ` set a \<union> fst ` set b"
proof -
  have "(map_of ab k \<noteq> None) = (map_of a k \<noteq> None \<or> map_of b k \<noteq> None)" for k
    using ocs_merge_lookup [OF wa wb ab, of k] by (auto split: option.splits)
  then have "dom (map_of ab) = dom (map_of a) \<union> dom (map_of b)"
    by (auto simp: dom_def)
  then show ?thesis by (simp add: dom_map_of_conv_image_fst)
qed

lemma merge_returns_iff:
  fixes ops :: "'a acs_ops"
  assumes U: "union_laws ops" and wa: "wf_cs a" and wb: "wf_cs b"
  shows "(\<exists>ab. ocs_merge_schema ops a b = Inr ab) = compatible ops a b"
proof
  assume "\<exists>ab. ocs_merge_schema ops a b = Inr ab"
  then obtain ab where ab: "ocs_merge_schema ops a b = Inr ab" ..
  show "compatible ops a b"
    unfolding compatible_def
  proof (intro allI impI)
    fix k x y
    assume x: "map_of a k = Some x" and y: "map_of b k = Some y"
    from ocs_merge_Some [OF wa wb ab y]
    obtain mg where "os_merge_schema ops (entry_or_new ops a k) y = Inr mg" .
    with x show "\<exists>r. os_merge_schema ops x y = Inr r" by (simp add: entry_or_new_def)
  qed
next
  assume c: "compatible ops a b"
  show "\<exists>ab. ocs_merge_schema ops a b = Inr ab"
  proof (rule ocs_merge_returns [OF wa wb])
    fix k y
    assume y: "map_of b k = Some y"
    show "\<exists>mg. os_merge_schema ops (entry_or_new ops a k) y = Inr mg"
    proof (cases "map_of a k")
      case None
      from entry_unit [OF U wb y None] show ?thesis by blast
    next
      case (Some x)
      with c y have "\<exists>r. os_merge_schema ops x y = Inr r" unfolding compatible_def by blast
      with Some show ?thesis by (simp add: entry_or_new_def)
    qed
  qed
qed

text \<open>
  C9, as the code has it. Let merging attribute schemas be commutative and
  associative where it returns, with the empty schema as unit, and let \<open>a\<close>,
  \<open>b\<close>, \<open>c\<close> be container schemas in which every object schema is stored under
  its own label, at every depth. Then merging \<open>b\<close> into \<open>a\<close> returns exactly when
  the per-label schemas of the labels they share can be merged; when it returns, the
  labels of the result are those of \<open>a\<close> and those of \<open>b\<close>, and merging \<open>a\<close>
  into \<open>b\<close> returns too, the two results having equal contents (the insertion order
  of the dicts apart); and when the merges of one grouping of \<open>a\<close>, \<open>b\<close>, \<open>c\<close>
  return, so do those of the other grouping, with equal contents.
\<close>

theorem merge_schema_commutative_associative:
  assumes "union_laws ops" and "wf_cs a" and "wf_cs b" and "wf_cs c"
  shows "((\<exists>ab. ocs_merge_schema ops a b = Inr ab) = compatible ops a b)
       \<and> (\<forall>ab. ocs_merge_schema ops a b = Inr ab \<longrightarrow>
             fst ` set ab = fst ` set a \<union> fst ` set b
             \<and> (\<exists>ba. ocs_merge_schema ops b a = Inr ba \<and> cs_contents ab = cs_contents ba))
       \<and> (\<forall>ab ab_c. ocs_merge_schema ops a b = Inr ab \<longrightarrow> ocs_merge_schema ops ab c = Inr ab_c \<longrightarrow>
             (\<exists>bc a_bc. ocs_merge_schema ops b c = Inr bc \<and> ocs_merge_schema ops a bc = Inr a_bc
                \<and> cs_contents ab_c = cs_contents a_bc))
       \<and> (\<forall>bc a_bc. ocs_merge_schema ops b c = Inr bc \<longrightarrow> ocs_merge_schema ops a bc = Inr a_bc \<longrightarrow>
             (\<exists>ab ab_c. ocs_merge_schema ops a b = Inr ab \<and> ocs_merge_schema ops ab c = Inr ab_c
                \<and> cs_contents ab_c = cs_contents a_bc))"
proof (intro conjI allI impI)
  note U = assms(1) and wa = assms(2) and wb = assms(3) and wc = assms(4)
  show "(\<exists>ab. ocs_merge_schema ops a b = Inr ab) = compatible ops a b"
    by (rule merge_returns_iff [OF U wa wb])
  show "fst ` set ab = fst ` set a \<union> fst ` set b" if "ocs_merge_schema ops a b = Inr ab" for ab
    by (rule keys_merge [OF wa wb that])
  show "\<exists>ba. ocs_merge_schema ops b a = Inr ba \<and> cs_contents ab = cs_contents ba"
    if "ocs_merge_schema ops a b = Inr ab" for ab
    by (rule comm_cs [OF U wa wb that])
  show "\<exists>bc a_bc. ocs_merge_schema ops b c = Inr bc \<and> ocs_merge_schema ops a bc = Inr a_bc
          \<and> cs_contents ab_c = cs_contents a_bc"
    if "ocs_merge_schema ops a b = Inr ab" and "ocs_merge_schema ops ab c = Inr ab_c" for ab ab_c
    by (rule assoc_cs [OF U wa wb wc that])
  show "\<exists>ab ab_c. ocs_merge_schema ops a b = Inr ab \<and> ocs_merge_schema ops ab c = Inr ab_c
          \<and> cs_contents ab_c = cs_contents a_bc"
    if "ocs_merge_schema ops b c = Inr bc" and "ocs_merge_schema ops a bc = Inr a_bc" for bc a_bc
    by (rule assoc_cs_back [OF U wa wb wc that])
qed

lemma example_merge_ab_keys:
  "map_sum id (map fst) (ocs_merge_schema set_ops example_schema_a example_schema_b)
     = Inr [Some ''car'', Some ''dog'']"
  by code_simp

lemma example_merge_ba_keys:
  "map_sum id (map fst) (ocs_merge_schema set_ops example_schema_b example_schema_a)
     = Inr [Some ''dog'', Some ''car'']"
  by code_simp

lemma example_merge_abc_keys:
  "map_sum id (map fst)
     (case ocs_merge_schema set_ops example_schema_a example_schema_b of
        Inl e \<Rightarrow> Inl e
      | Inr ab \<Rightarrow> ocs_merge_schema set_ops ab example_schema_c)
     = Inr [Some ''car'', Some ''dog'', None]"
  by code_simp

lemma set_ops_union_laws: "union_laws set_ops"
  by (auto simp: union_laws_def set_ops_def)

theorem merge_schema_commutative_associative_witness:
  "union_laws set_ops \<and> wf_cs example_schema_a \<and> wf_cs example_schema_b
   \<and> wf_cs example_schema_c
   \<and> compatible set_ops example_schema_a example_schema_b
   \<and> (\<exists>ab ba. ocs_merge_schema set_ops example_schema_a example_schema_b = Inr ab
          \<and> ocs_merge_schema set_ops example_schema_b example_schema_a = Inr ba
          \<and> map fst ab = [Some ''car'', Some ''dog''] \<and> map fst ba = [Some ''dog'', Some ''car'']
          \<and> cs_contents ab = cs_contents ba)
   \<and> (\<exists>ab ab_c bc a_bc. ocs_merge_schema set_ops example_schema_a example_schema_b = Inr ab
          \<and> ocs_merge_schema set_ops ab example_schema_c = Inr ab_c
          \<and> ocs_merge_schema set_ops example_schema_b example_schema_c = Inr bc
          \<and> ocs_merge_schema set_ops example_schema_a bc = Inr a_bc
          \<and> cs_contents ab_c = cs_contents a_bc)"
proof -
  note U = set_ops_union_laws
  have w: "wf_cs example_schema_a" "wf_cs example_schema_b" "wf_cs example_schema_c"
    by (simp_all add: example_schema_a_def example_schema_b_def example_schema_c_def)
  note T = merge_schema_commutative_associative [OF U w]
  from example_merge_ab_keys
  obtain ab where ab: "ocs_merge_schema set_ops example_schema_a example_schema_b = Inr ab"
    by (cases "ocs_merge_schema set_ops example_schema_a example_schema_b") simp_all
  from example_merge_abc_keys ab
  obtain ab_c where ab_c: "ocs_merge_schema set_ops ab example_schema_c = Inr ab_c"
    by (cases "ocs_merge_schema set_ops ab example_schema_c") simp_all
  from T [THEN conjunct1] ab have cp: "compatible set_ops example_schema_a example_schema_b"
    by blast
  from T [THEN conjunct2, THEN conjunct1, rule_format, OF ab]
  obtain ba where ba: "ocs_merge_schema set_ops example_schema_b example_schema_a = Inr ba"
    "cs_contents ab = cs_contents ba" by blast
  from T [THEN conjunct2, THEN conjunct2, THEN conjunct1, rule_format, OF ab ab_c]
  obtain bc a_bc where g: "ocs_merge_schema set_ops example_schema_b example_schema_c = Inr bc"
    "ocs_merge_schema set_ops example_schema_a bc = Inr a_bc"
    "cs_contents ab_c = cs_contents a_bc" by blast
  from T [THEN conjunct2, THEN conjunct2, THEN conjunct2, rule_format, OF g(1,2)]
  obtain ab' ab_c' where g': "ocs_merge_schema set_ops example_schema_a example_schema_b = Inr ab'"
    "ocs_merge_schema set_ops ab' example_schema_c = Inr ab_c'"
    "cs_contents ab_c' = cs_contents a_bc" by blast
  have k: "map fst ab = [Some ''car'', Some ''dog'']" "map fst ba = [Some ''dog'', Some ''car'']"
    using example_merge_ab_keys example_merge_ba_keys by (simp_all add: ab ba(1))
  have c1: "\<exists>ab ba. ocs_merge_schema set_ops example_schema_a example_schema_b = Inr ab
          \<and> ocs_merge_schema set_ops example_schema_b example_schema_a = Inr ba
          \<and> map fst ab = [Some ''car'', Some ''dog''] \<and> map fst ba = [Some ''dog'', Some ''car'']
          \<and> cs_contents ab = cs_contents ba"
    apply (rule exI [of _ ab])
    apply (rule exI [of _ ba])
    apply (intro conjI)
        apply (rule ab)
       apply (rule ba(1))
      apply (rule k(1))
     apply (rule k(2))
    apply (rule ba(2))
    done
  have c2: "\<exists>ab ab_c bc a_bc. ocs_merge_schema set_ops example_schema_a example_schema_b = Inr ab
          \<and> ocs_merge_schema set_ops ab example_schema_c = Inr ab_c
          \<and> ocs_merge_schema set_ops example_schema_b example_schema_c = Inr bc
          \<and> ocs_merge_schema set_ops example_schema_a bc = Inr a_bc
          \<and> cs_contents ab_c = cs_contents a_bc"
    apply (rule exI [of _ ab'])
    apply (rule exI [of _ ab_c'])
    apply (rule exI [of _ bc])
    apply (rule exI [of _ a_bc])
    apply (intro conjI)
        apply (rule g'(1))
       apply (rule g'(2))
      apply (rule g(1))
     apply (rule g(2))
    apply (rule g'(3))
    done
  from U w cp c1 c2 show ?thesis by (intro conjI)
qed

text \<open>
  Without the condition on the labels the merge is not commutative: a schema stored
  under \<open>x\<close> but labelled \<open>y\<close> cannot be merged into the empty container schema
  (\<^verbatim>\<open>validate_label\<close> raises), while the empty one merges into it. The two share
  no label.
\<close>

theorem merge_schema_counterexample:
  "ocs_merge_schema set_ops [] [(Some ''x'', ObjectSchema (Some ''y'') {} {} [])]
     = Inl ObjectSchemaError
   \<and> ocs_merge_schema set_ops [(Some ''x'', ObjectSchema (Some ''y'') {} {} [])] []
     = Inr [(Some ''x'', ObjectSchema (Some ''y'') {} {} [])]"
  by (simp add: ensure_has_object_label_def has_object_label_def new_ObjectSchema_def
      os_validate_label_def Let_def)
end
